theory Spec2Isabelle
  imports Complex_Main
begin

section \<open>The ingestion client of YanheKt-AI\<close>

text \<open>
  A shallow embedding of \<^verbatim>\<open>src/lib/ingestion.ts\<close> (preflight, chunked upload,
  completion, status polling), of the task state handling of
  \<^verbatim>\<open>src/components/Snackbar.tsx\<close> and of the stage registry of \<^verbatim>\<open>src/App.tsx\<close>.

  The asynchronous code is modelled as a deterministic state machine over the events the
  JavaScript event loop delivers (a response to a pending request, a timer that fires, the
  user calling \<^verbatim>\<open>cancel\<close>). One step runs the code from the resumed \<^verbatim>\<open>await\<close>
  to the next suspension, as the single-threaded run-to-completion semantics does; what the
  code does to the outside (requests, timers, callbacks, settling the returned promise) is
  appended to a trace. Every interleaving of the concurrent workers is one list of events.

  Sizes and counts are mathematical naturals (byte counts: \<^verbatim>\<open>Blob.size\<close>, \<^verbatim>\<open>partSize\<close>),
  quotients are real numbers: the limits of IEEE doubles and of array lengths are not modelled.
  Division by zero is written out, as JavaScript has it (\<^verbatim>\<open>Infinity\<close>, \<^verbatim>\<open>NaN\<close>).
\<close>

subsection \<open>URLs\<close>

text \<open>\<^verbatim>\<open>s.replace(/\/$/, "")\<close>: one trailing slash is removed.\<close>

definition strip_trailing_slash :: "string \<Rightarrow> string" where
  "strip_trailing_slash s = (if s \<noteq> [] \<and> last s = CHR ''/'' then butlast s else s)"

definition joinUrl :: "string \<Rightarrow> string \<Rightarrow> string" where
  "joinUrl base path =
     strip_trailing_slash base @ (if take 1 path = ''/'' then [] else ''/'') @ path"

text \<open>\<^verbatim>\<open>/^https?:\/\//.test(u)\<close>\<close>

definition is_http_url :: "string \<Rightarrow> bool" where
  "is_http_url u = (take 7 u = ''http://'' \<or> take 8 u = ''https://'')"

text \<open>
  \<^verbatim>\<open>let url = x.downloadUrl; if (url && !/^https?:\/\//.test(url)) url = joinUrl(endpoint, url)\<close>
\<close>

definition absolute_url :: "string \<Rightarrow> string option \<Rightarrow> string option" where
  "absolute_url ep u =
     (case u of
        None \<Rightarrow> None
      | Some x \<Rightarrow> if x \<noteq> [] \<and> \<not> is_http_url x then Some (joinUrl ep x) else Some x)"

subsection \<open>Numbers\<close>

datatype jsnum = Fin real | PosInf | NegInf | NaN

text \<open>\<^verbatim>\<open>a / b\<close> for a byte count \<open>a\<close> and a count \<open>b\<close>.\<close>

definition js_div :: "nat \<Rightarrow> nat \<Rightarrow> jsnum" where
  "js_div a b =
     (if b = 0 then (if a = 0 then NaN else PosInf) else Fin (of_nat a / of_nat b))"

fun math_ceil :: "jsnum \<Rightarrow> jsnum" where
  "math_ceil (Fin q) = Fin (of_int \<lceil>q\<rceil>)"
| "math_ceil x = x"

text \<open>\<^verbatim>\<open>uploaded / total\<close>, where \<open>total\<close> is what \<^verbatim>\<open>Math.ceil\<close> returned.\<close>

fun js_div_num :: "nat \<Rightarrow> jsnum \<Rightarrow> jsnum" where
  "js_div_num a (Fin q) =
     (if q = 0 then (if a = 0 then NaN else PosInf) else Fin (of_nat a / q))"
| "js_div_num a PosInf = Fin 0"
| "js_div_num a NegInf = Fin 0"
| "js_div_num a NaN = NaN"

text \<open>\<^verbatim>\<open>Number.isFinite(p) ? p : 0\<close>\<close>

fun finite_or_zero :: "jsnum \<Rightarrow> real" where
  "finite_or_zero (Fin q) = q"
| "finite_or_zero x = 0"

text \<open>
  \<^verbatim>\<open>Array.from({ length: total }, (_, i) => i + 1)\<close>: \<^verbatim>\<open>NaN\<close> and values below one give
  the empty array, an infinite length raises \<^verbatim>\<open>RangeError\<close> (\<open>None\<close>).
\<close>

fun array_from_length :: "jsnum \<Rightarrow> nat list option" where
  "array_from_length (Fin q) = Some [1 ..< Suc (nat \<lfloor>q\<rfloor>)]"
| "array_from_length PosInf = None"
| "array_from_length NegInf = Some []"
| "array_from_length NaN = Some []"

subsection \<open>Blobs\<close>

text \<open>
  \<^verbatim>\<open>blob.slice(start, end)\<close> of a blob of \<open>sz\<close> bytes, for non-negative arguments: both
  ends are clamped to the size, and the span is never negative. The result is the
  half-open byte range it selects.
\<close>

definition blob_slice :: "nat \<Rightarrow> nat \<Rightarrow> nat \<Rightarrow> nat \<times> nat" where
  "blob_slice sz start end' =
     (let a = min start sz; b = min end' sz in (a, max a b))"

subsection \<open>Data of \<^verbatim>\<open>ingestion.ts\<close>\<close>

datatype preflight_resp =
    Exists string "string option" "string option"
  | NotExists string "string option"

text \<open>
  \<open>Exists objectId downloadUrl rawUrl\<close> and \<open>NotExists objectId uploadId\<close>: the two
  variants of \<^verbatim>\<open>PreflightResp\<close>.
\<close>

record opts =
  opts_endpoint :: "string option"
  opts_partSize :: "nat option"
  opts_concurrency :: "nat option"
  opts_preflightResult :: "preflight_resp option"

text \<open>The constants \<^verbatim>\<open>startIngestion\<close> computes first, and the size of \<^verbatim>\<open>tsBlob\<close>.\<close>

record config =
  tsBlob_size :: nat
  endpoint :: string
  partSize :: nat
  concurrency :: nat
  preflightResult :: "preflight_resp option"

definition default_endpoint :: string where
  "default_endpoint = ''http://127.0.0.1:5000''"

definition config_of :: "nat \<Rightarrow> opts \<Rightarrow> config" where
  "config_of sz opts =
     \<lparr> tsBlob_size = sz,
       endpoint = strip_trailing_slash
         (case opts_endpoint opts of None \<Rightarrow> default_endpoint | Some e \<Rightarrow> e),
       partSize = (case opts_partSize opts of None \<Rightarrow> 8 * 1024 * 1024 | Some p \<Rightarrow> p),
       concurrency = (case opts_concurrency opts of None \<Rightarrow> 4 | Some c \<Rightarrow> c),
       preflightResult = opts_preflightResult opts \<rparr>"

datatype js_error =
    AbortError
  | NetworkError
  | JsonError
  | RangeError
  | PreflightFailed nat
  | InitFailed nat
  | NoUploadId
  | SegmentHttp nat nat
  | CompleteFailed nat
  | ServerStageError "string option" string

text \<open>
  \<open>AbortError\<close> is the \<^verbatim>\<open>DOMException\<close> named \<^verbatim>\<open>"AbortError"\<close> (thrown by the code, or by
  an aborted \<^verbatim>\<open>fetch\<close>); \<open>NetworkError\<close> a \<^verbatim>\<open>fetch\<close> that rejects; \<open>JsonError\<close> a body
  that \<^verbatim>\<open>json()\<close> rejects; the others are the \<^verbatim>\<open>Error\<close>s the code throws, with the values
  their messages are built from:
  \<^verbatim>\<open>preflight failed: <status>\<close>, \<^verbatim>\<open>init failed: <status>\<close>,
  \<^verbatim>\<open>server did not return uploadId\<close>,
  \<^verbatim>\<open>segment <i> http <status>\<close>, \<^verbatim>\<open>complete failed: <status>\<close>,
  \<^verbatim>\<open>server stage: <stage> <message>\<close>.
\<close>

datatype outcome =
    Resolved "string option" "string option"
  | Rejected js_error

text \<open>\<open>Resolved uploadId downloadUrl\<close>: the promise's value \<^verbatim>\<open>{ uploadId, downloadUrl }\<close>.\<close>

datatype effect =
    PreflightReq
  | InitReq jsnum
  | SegmentReq string nat nat nat
  | CompleteReq string
  | StatusReq string
  | SetTimeout nat
  | OnUploadProgress jsnum
  | OnServerStage "string option" real
  | Settled outcome

text \<open>
  \<open>PreflightReq\<close>: \<^verbatim>\<open>POST /api/ingestions\<close> with \<^verbatim>\<open>total: 0\<close> and \<^verbatim>\<open>__mode: "preflight"\<close>;
  \<open>InitReq total\<close>: \<^verbatim>\<open>POST /api/ingestions\<close> with \<^verbatim>\<open>meta.total\<close>;
  \<open>SegmentReq uploadId i a b\<close>: \<^verbatim>\<open>POST /api/ingestions/<uploadId>/segments?i=<i>\<close> with the
  bytes \<open>[a, b)\<close> of the blob; \<open>CompleteReq\<close> and \<open>StatusReq\<close>: the requests to
  \<^verbatim>\<open>/complete\<close> and \<^verbatim>\<open>/status\<close>; \<open>SetTimeout ms\<close>: a timer the code waits for; the two
  callbacks of \<^verbatim>\<open>Opts\<close>; \<open>Settled\<close>: the returned promise resolves or rejects.
\<close>

datatype 'a response = NetFail | Http nat 'a

text \<open>A \<^verbatim>\<open>fetch\<close> rejects, or resolves to a response with a status and a body.\<close>

definition ok :: "nat \<Rightarrow> bool" where
  "ok status = (200 \<le> status \<and> status \<le> 299)"

record init_json =
  init_uploadId :: "string option"
  init_exists :: bool
  init_downloadUrl :: "string option"

record status_json =
  st_stage :: "string option"
  st_progress :: "jsnum option"
  st_downloadUrl :: "string option"
  st_message :: "string option"

text \<open>
  \<open>st_progress\<close> is \<^verbatim>\<open>Number(state.progress)\<close> when the field is present and not null.
  A body is \<open>None\<close> when \<^verbatim>\<open>json()\<close> rejects.
\<close>

datatype input =
    Cancel
  | InitResponse "init_json option response"
  | SegmentResponse nat "unit response"
  | RetryTimer nat
  | CompleteResponse "unit response"
  | StatusResponse "status_json option response"
  | PollTimer

text \<open>
  \<open>SegmentResponse w r\<close>: the pending segment request of worker \<open>w\<close> ends with \<open>r\<close>;
  \<open>RetryTimer w\<close>: the 400 ms timer of worker \<open>w\<close> fires.
\<close>

datatype worker =
    Fetching nat nat
  | Sleeping nat nat
  | Returned
  | Threw js_error

text \<open>
  One call of \<^verbatim>\<open>worker()\<close>. \<open>Fetching i tries\<close>: inside \<^verbatim>\<open>uploadOne(i)\<close>, a request is
  pending (its \<^verbatim>\<open>AbortController\<close> is in \<^verbatim>\<open>controllers\<close>) and the variable \<^verbatim>\<open>tries\<close> has
  the given value; \<open>Sleeping i tries\<close>: inside \<^verbatim>\<open>uploadOne(i)\<close>, waiting 400 ms;
  \<open>Returned\<close>: the queue was empty; \<open>Threw e\<close>: the worker's promise rejected.
\<close>

datatype phase =
    Running
  | AwaitInit
  | AwaitWorkers
  | AwaitComplete
  | AwaitStatus
  | AwaitPollTimer
  | Done outcome

text \<open>Where the body of the \<^verbatim>\<open>async\<close> function is suspended.\<close>

record state =
  uploadId :: string
  queue :: "nat list"
  uploaded :: nat
  aborted :: bool
  workers :: "worker list"
  phase :: phase
  trace :: "effect list"
  acked :: "nat list"

text \<open>
  The variables of the closure, the workers, the suspension point and the trace.
  \<open>acked\<close> is a ghost variable: the indices whose request was answered with
  \<^verbatim>\<open>res.ok\<close>, in that order (the code only counts them, in \<open>uploaded\<close>).
\<close>

subsection \<open>\<^verbatim>\<open>startIngestion\<close>\<close>

definition total_of :: "config \<Rightarrow> jsnum" where
  "total_of cfg = math_ceil (js_div (tsBlob_size cfg) (partSize cfg))"

definition emit :: "effect \<Rightarrow> state \<Rightarrow> state" where
  "emit e s = s\<lparr>trace := trace s @ [e]\<rparr>"

definition settle :: "outcome \<Rightarrow> state \<Rightarrow> state" where
  "settle r s = emit (Settled r) (s\<lparr>phase := Done r\<rparr>)"

text \<open>
  \<^verbatim>\<open>const start = (i - 1) * partSize; const end = Math.min(i * partSize, tsBlob.size);
  const chunk = tsBlob.slice(start, end)\<close>
\<close>

definition chunk_range :: "config \<Rightarrow> nat \<Rightarrow> nat \<times> nat" where
  "chunk_range cfg i =
     blob_slice (tsBlob_size cfg) ((i - 1) * partSize cfg)
       (min (i * partSize cfg) (tsBlob_size cfg))"

text \<open>The body of \<^verbatim>\<open>while (tries--)\<close> up to \<^verbatim>\<open>await fetch\<close>; \<open>t\<close> is \<^verbatim>\<open>tries\<close> after the decrement.\<close>

definition send_segment :: "config \<Rightarrow> nat \<Rightarrow> nat \<Rightarrow> nat \<Rightarrow> state \<Rightarrow> state" where
  "send_segment cfg w i t s =
     emit (SegmentReq (uploadId s) i (fst (chunk_range cfg i)) (snd (chunk_range cfg i)))
       (s\<lparr>workers := (workers s)[w := Fetching i t]\<rparr>)"

text \<open>
  A worker's promise rejects. \<^verbatim>\<open>Promise.all\<close> rejects with the first rejection, which
  the body sees only while it awaits the workers.
\<close>

definition worker_throw :: "nat \<Rightarrow> js_error \<Rightarrow> state \<Rightarrow> state" where
  "worker_throw w e s =
     (let s1 = s\<lparr>workers := (workers s)[w := Threw e]\<rparr>
      in if phase s1 = AwaitWorkers then settle (Rejected e) s1 else s1)"

text \<open>
  \<^verbatim>\<open>const complete = await fetch(joinUrl(endpoint, `/api/ingestions/${uploadId}/complete`), ...)\<close>
\<close>

definition request_complete :: "state \<Rightarrow> state" where
  "request_complete s = emit (CompleteReq (uploadId s)) (s\<lparr>phase := AwaitComplete\<rparr>)"

text \<open>A worker finds the queue empty and returns; when all have, \<^verbatim>\<open>Promise.all\<close> resolves.\<close>

definition worker_return :: "nat \<Rightarrow> state \<Rightarrow> state" where
  "worker_return w s =
     (let s1 = s\<lparr>workers := (workers s)[w := Returned]\<rparr>
      in if phase s1 = AwaitWorkers \<and> (\<forall>x \<in> set (workers s1). x = Returned)
         then request_complete s1 else s1)"

text \<open>
  \<^verbatim>\<open>while (queue.length) { const i = queue.shift()!; await uploadOne(i) }\<close>, from the loop
  test to the first suspension of \<^verbatim>\<open>uploadOne\<close>:
  \<^verbatim>\<open>if (aborted) throw new DOMException("Aborted", "AbortError")\<close>, then \<^verbatim>\<open>let tries = 3\<close>
  and the first pass of \<^verbatim>\<open>while (tries--)\<close>.
\<close>

definition worker_loop :: "config \<Rightarrow> nat \<Rightarrow> state \<Rightarrow> state" where
  "worker_loop cfg w s =
     (case queue s of
        [] \<Rightarrow> worker_return w s
      | i # q \<Rightarrow>
          (let s1 = s\<lparr>queue := q\<rparr>
           in if aborted s1 then worker_throw w AbortError s1
              else send_segment cfg w i 2 s1))"

text \<open>
  \<^verbatim>\<open>Array.from({ length: concurrency }, worker)\<close> calls \<^verbatim>\<open>worker()\<close> \<open>n\<close> times, each up
  to its first suspension.
\<close>

fun spawn :: "config \<Rightarrow> nat \<Rightarrow> state \<Rightarrow> state" where
  "spawn cfg 0 s = s"
| "spawn cfg (Suc n) s =
     spawn cfg n
       (worker_loop cfg (length (workers s)) (s\<lparr>workers := workers s @ [Returned]\<rparr>))"

fun first_thrown :: "worker list \<Rightarrow> js_error option" where
  "first_thrown [] = None"
| "first_thrown (Threw e # ws) = Some e"
| "first_thrown (x # ws) = first_thrown ws"

text \<open>
  Part C of the body: the indices, the workers, and \<^verbatim>\<open>await Promise.all(...)\<close>.
\<close>

definition begin_upload :: "config \<Rightarrow> state \<Rightarrow> state" where
  "begin_upload cfg s =
     (case array_from_length (total_of cfg) of
        None \<Rightarrow> settle (Rejected RangeError) s
      | Some indices \<Rightarrow>
          (let s1 = spawn cfg (concurrency cfg)
                 (s\<lparr>queue := indices, uploaded := 0, phase := Running\<rparr>)
           in case first_thrown (workers s1) of
                Some e \<Rightarrow> settle (Rejected e) s1
              | None \<Rightarrow>
                  if \<forall>x \<in> set (workers s1). x = Returned then request_complete s1
                  else s1\<lparr>phase := AwaitWorkers\<rparr>))"

definition init_state :: state where
  "init_state =
     \<lparr> uploadId = [], queue = [], uploaded = 0, aborted = False, workers = [],
       phase = Running, trace = [], acked = [] \<rparr>"

text \<open>
  The body of the \<^verbatim>\<open>async\<close> function up to its first suspension: part A (the preflight
  result says the content exists), the upload id of the preflight result, part B (init).
\<close>

definition start :: "config \<Rightarrow> state" where
  "start cfg =
     (case preflightResult cfg of
        Some (Exists oid url raw) \<Rightarrow>
          (if url \<noteq> None \<and> url \<noteq> Some [] then settle (Resolved None url) init_state
           else settle (Resolved None raw) init_state)
      | other \<Rightarrow>
          (let uid = (case other of Some (NotExists oid (Some u)) \<Rightarrow> u | _ \<Rightarrow> [])
           in if uid = [] then emit (InitReq (total_of cfg)) (init_state\<lparr>phase := AwaitInit\<rparr>)
              else begin_upload cfg (init_state\<lparr>uploadId := uid\<rparr>)))"

definition startIngestion :: "nat \<Rightarrow> opts \<Rightarrow> state" where
  "startIngestion sz opts = start (config_of sz opts)"

text \<open>\<^verbatim>\<open>cancel\<close>: the flag, then every pending segment request rejects with \<^verbatim>\<open>AbortError\<close>.\<close>

definition abort_worker :: "state \<Rightarrow> nat \<Rightarrow> state" where
  "abort_worker s w =
     (case workers s ! w of
        Fetching i t \<Rightarrow> worker_throw w AbortError s
      | _ \<Rightarrow> s)"

definition cancel :: "state \<Rightarrow> state" where
  "cancel s = foldl abort_worker (s\<lparr>aborted := True\<rparr>) [0 ..< length (workers s)]"

text \<open>The top of \<^verbatim>\<open>while (true)\<close> of part E, up to \<^verbatim>\<open>await fetch\<close> of the status.\<close>

definition poll :: "state \<Rightarrow> state" where
  "poll s =
     (if aborted s then settle (Rejected AbortError) s
      else emit (StatusReq (uploadId s)) (s\<lparr>phase := AwaitStatus\<rparr>))"

definition on_init :: "config \<Rightarrow> init_json option response \<Rightarrow> state \<Rightarrow> state" where
  "on_init cfg r s =
     (case r of
        NetFail \<Rightarrow> settle (Rejected NetworkError) s
      | Http status body \<Rightarrow>
          if \<not> ok status then settle (Rejected (InitFailed status)) s
          else (case body of
                  None \<Rightarrow> settle (Rejected JsonError) s
                | Some j \<Rightarrow>
                    if init_exists j
                    then settle (Resolved None (absolute_url (endpoint cfg) (init_downloadUrl j)))
                           (emit (OnServerStage (Some ''EXISTS'') 1) s)
                    else (case init_uploadId j of
                            None \<Rightarrow> settle (Rejected NoUploadId) s
                          | Some u \<Rightarrow>
                              if u = [] then settle (Rejected NoUploadId) s
                              else begin_upload cfg (s\<lparr>uploadId := u\<rparr>))))"

text \<open>
  What \<^verbatim>\<open>catch (e)\<close> of \<^verbatim>\<open>uploadOne(i)\<close> receives: the rejection of \<^verbatim>\<open>fetch\<close>, or
  \<^verbatim>\<open>new Error(`segment ${i} http ${res.status}`)\<close> when \<^verbatim>\<open>res.ok\<close> is false; \<open>None\<close> when
  the segment is acknowledged.
\<close>

definition segment_error :: "nat \<Rightarrow> unit response \<Rightarrow> js_error option" where
  "segment_error i r =
     (case r of
        NetFail \<Rightarrow> Some NetworkError
      | Http status u \<Rightarrow> if \<not> ok status then Some (SegmentHttp i status) else None)"

text \<open>\<^verbatim>\<open>uploadOne\<close> resumed by the answer to its request.\<close>

definition on_segment :: "config \<Rightarrow> nat \<Rightarrow> unit response \<Rightarrow> state \<Rightarrow> state" where
  "on_segment cfg w r s =
     (case workers s ! w of
        Fetching i t \<Rightarrow>
          (case segment_error i r of
             Some e \<Rightarrow>
               if aborted s then worker_throw w e s
               else if t \<le> 0 then worker_throw w e s
               else emit (SetTimeout 400) (s\<lparr>workers := (workers s)[w := Sleeping i t]\<rparr>)
           | None \<Rightarrow>
               worker_loop cfg w
                 (emit (OnUploadProgress (js_div_num (uploaded s + 1) (total_of cfg)))
                    (s\<lparr>uploaded := uploaded s + 1, acked := acked s @ [i]\<rparr>)))
      | _ \<Rightarrow> s)"

text \<open>
  \<^verbatim>\<open>uploadOne\<close> resumed after the 400 ms: the test of \<^verbatim>\<open>while (tries--)\<close>. When it fails,
  \<^verbatim>\<open>uploadOne\<close> returns and the worker goes on.
\<close>

definition on_retry_timer :: "config \<Rightarrow> nat \<Rightarrow> state \<Rightarrow> state" where
  "on_retry_timer cfg w s =
     (case workers s ! w of
        Sleeping i t \<Rightarrow> if t = 0 then worker_loop cfg w s else send_segment cfg w i (t - 1) s
      | _ \<Rightarrow> s)"

definition on_complete :: "unit response \<Rightarrow> state \<Rightarrow> state" where
  "on_complete r s =
     (case r of
        NetFail \<Rightarrow> settle (Rejected NetworkError) s
      | Http status u \<Rightarrow>
          if \<not> ok status then settle (Rejected (CompleteFailed status)) s else poll s)"

text \<open>
  \<^verbatim>\<open>const p = Number(state.progress ?? 0)\<close> and the \<^verbatim>\<open>Number.isFinite(p) ? p : 0\<close> that is
  handed to \<^verbatim>\<open>onServerStage\<close>.
\<close>

definition status_progress :: "status_json \<Rightarrow> real" where
  "status_progress j = finite_or_zero (case st_progress j of None \<Rightarrow> Fin 0 | Some v \<Rightarrow> v)"

text \<open>One answer of \<^verbatim>\<open>/status\<close>: the callback first, then the three sentinel stages.\<close>

definition on_status :: "config \<Rightarrow> status_json option response \<Rightarrow> state \<Rightarrow> state" where
  "on_status cfg r s =
     (case r of
        NetFail \<Rightarrow> settle (Rejected NetworkError) s
      | Http status body \<Rightarrow>
          (case body of
             None \<Rightarrow> settle (Rejected JsonError) s
           | Some j \<Rightarrow>
               (let stage = st_stage j;
                    s1 = emit (OnServerStage stage (status_progress j)) s
                in if stage = Some ''DONE''
                   then settle (Resolved (Some (uploadId s))
                                  (absolute_url (endpoint cfg) (st_downloadUrl j))) s1
                   else if stage = Some ''FAILED'' \<or> stage = Some ''UNKNOWN''
                   then settle (Rejected (ServerStageError stage
                                  (case st_message j of None \<Rightarrow> [] | Some m \<Rightarrow> m))) s1
                   else emit (SetTimeout 1000) (s1\<lparr>phase := AwaitPollTimer\<rparr>))))"

text \<open>
  One event of the event loop. An event nothing waits for (no such pending request or
  timer) changes nothing.
\<close>

definition step :: "config \<Rightarrow> state \<Rightarrow> input \<Rightarrow> state" where
  "step cfg s x =
     (case x of
        Cancel \<Rightarrow> cancel s
      | InitResponse r \<Rightarrow> if phase s = AwaitInit then on_init cfg r s else s
      | SegmentResponse w r \<Rightarrow> if w < length (workers s) then on_segment cfg w r s else s
      | RetryTimer w \<Rightarrow> if w < length (workers s) then on_retry_timer cfg w s else s
      | CompleteResponse r \<Rightarrow> if phase s = AwaitComplete then on_complete r s else s
      | StatusResponse r \<Rightarrow> if phase s = AwaitStatus then on_status cfg r s else s
      | PollTimer \<Rightarrow> if phase s = AwaitPollTimer then poll s else s)"

definition run :: "config \<Rightarrow> input list \<Rightarrow> state" where
  "run cfg xs = foldl (step cfg) (start cfg) xs"

subsection \<open>The texts of \<^verbatim>\<open>Snackbar.tsx\<close>\<close>

text \<open>
  The source's string literals are Chinese; they are given here as their UTF-8 bytes.
\<close>

text \<open>\<^verbatim>\<open>message\<close> of the error state of both pipelines' \<^verbatim>\<open>catch\<close> ("server processing failed")\<close>

definition msg_server_failed :: string where
  "msg_server_failed =
     [CHR 0xE6, CHR 0x9C, CHR 0x8D, CHR 0xE5, CHR 0x8A, CHR 0xA1, CHR 0xE5, CHR 0x99, CHR 0xA8,
      CHR 0xE5, CHR 0xA4, CHR 0x84, CHR 0xE7, CHR 0x90, CHR 0x86, CHR 0xE5, CHR 0xA4, CHR 0xB1,
      CHR 0xE8, CHR 0xB4, CHR 0xA5]"

text \<open>\<^verbatim>\<open>message\<close> after an \<^verbatim>\<open>AbortError\<close> ("cancelled")\<close>

definition msg_cancelled :: string where
  "msg_cancelled =
     [CHR 0xE5, CHR 0xB7, CHR 0xB2, CHR 0xE5, CHR 0x8F, CHR 0x96, CHR 0xE6, CHR 0xB6, CHR 0x88]"

text \<open>the default \<^verbatim>\<open>message\<close> of a failed insight job ("insight failed")\<close>

definition msg_insight_failed :: string where
  "msg_insight_failed =
     [CHR 0xE6, CHR 0xB4, CHR 0x9E, CHR 0xE6, CHR 0x82, CHR 0x89, CHR 0xE5, CHR 0xA4, CHR 0xB1,
      CHR 0xE8, CHR 0xB4, CHR 0xA5]"

text \<open>label of stage \<^verbatim>\<open>EXISTS\<close>\<close>

definition label_exists :: string where
  "label_exists =
     [CHR 0xE5, CHR 0xB7, CHR 0xB2, CHR 0xE5, CHR 0xAD, CHR 0x98, CHR 0xE5, CHR 0x9C, CHR 0xA8,
      CHR 0xEF, CHR 0xBC, CHR 0x8C, CHR 0xE7, CHR 0x9B, CHR 0xB4, CHR 0xE6, CHR 0x8E, CHR 0xA5,
      CHR 0xE5, CHR 0x8F, CHR 0xAF, CHR 0xE6, CHR 0xB4, CHR 0x9E, CHR 0xE6, CHR 0x82, CHR 0x89]"

text \<open>label of stage \<^verbatim>\<open>NOT_EXISTS\<close>\<close>

definition label_not_exists :: string where
  "label_not_exists =
     [CHR 0xE6, CHR 0x9C, CHR 0xAA, CHR 0xE5, CHR 0xAD, CHR 0x98, CHR 0xE5, CHR 0x9C, CHR 0xA8,
      CHR 0xEF, CHR 0xBC, CHR 0x8C, CHR 0xE5, CHR 0x87, CHR 0x86, CHR 0xE5, CHR 0xA4, CHR 0x87,
      CHR 0xE4, CHR 0xB8, CHR 0x8B, CHR 0xE8, CHR 0xBD, CHR 0xBD]"

text \<open>label of stage \<^verbatim>\<open>QUEUED\<close>\<close>

definition label_queued :: string where
  "label_queued =
     [CHR 0xE6, CHR 0x8E, CHR 0x92, CHR 0xE9, CHR 0x98, CHR 0x9F, CHR 0xE4, CHR 0xB8, CHR 0xAD]"

text \<open>label of stage \<^verbatim>\<open>CHECK\<close>\<close>

definition label_check :: string where
  "label_check =
     [CHR 0xE6, CHR 0xA3, CHR 0x80, CHR 0xE6, CHR 0x9F, CHR 0xA5, CHR 0xE5, CHR 0x8E, CHR 0x86,
      CHR 0xE5, CHR 0x8F, CHR 0xB2, CHR 0xE8, CHR 0xAE, CHR 0xB0, CHR 0xE5, CHR 0xBD, CHR 0x95,
      CHR 0x2E, CHR 0x2E, CHR 0x2E]"

text \<open>label of stage \<^verbatim>\<open>OSS_UPLOAD\<close>\<close>

definition label_oss_upload :: string where
  "label_oss_upload =
     [CHR 0xE4, CHR 0xB8, CHR 0x8A, CHR 0xE4, CHR 0xBC, CHR 0xA0, CHR 0x20, CHR 0x4F, CHR 0x53,
      CHR 0x53, CHR 0x2E, CHR 0x2E, CHR 0x2E]"

text \<open>label of stage \<^verbatim>\<open>OSS_CLEAN\<close>\<close>

definition label_oss_clean :: string where
  "label_oss_clean =
     [CHR 0xE6, CHR 0xB8, CHR 0x85, CHR 0xE7, CHR 0x90, CHR 0x86, CHR 0x20, CHR 0x4F, CHR 0x53,
      CHR 0x53, CHR 0x2E, CHR 0x2E, CHR 0x2E]"

text \<open>label of stage \<^verbatim>\<open>AI_SUBMIT\<close>\<close>

definition label_ai_submit :: string where
  "label_ai_submit =
     [CHR 0xE6, CHR 0x8F, CHR 0x90, CHR 0xE4, CHR 0xBA, CHR 0xA4, CHR 0xE5, CHR 0x90, CHR 0xAC,
      CHR 0xE6, CHR 0x82, CHR 0x9F, CHR 0x2E, CHR 0x2E, CHR 0x2E]"

text \<open>label of stage \<^verbatim>\<open>ES_INDEX\<close>\<close>

definition label_es_index :: string where
  "label_es_index =
     [CHR 0xE6, CHR 0x9E, CHR 0x84, CHR 0xE5, CHR 0xBB, CHR 0xBA, CHR 0xE7, CHR 0x9F, CHR 0xA5,
      CHR 0xE8, CHR 0xAF, CHR 0x86, CHR 0xE5, CHR 0x8D, CHR 0xA1, CHR 0xE7, CHR 0x89, CHR 0x87,
      CHR 0x2F, CHR 0xE5, CHR 0x85, CHR 0xA5, CHR 0xE7, CHR 0xB4, CHR 0xA2, CHR 0xE5, CHR 0xBC,
      CHR 0x95, CHR 0x2E, CHR 0x2E, CHR 0x2E]"

text \<open>label of any other stage\<close>

definition label_processing :: string where
  "label_processing =
     [CHR 0xE6, CHR 0x9C, CHR 0x8D, CHR 0xE5, CHR 0x8A, CHR 0xA1, CHR 0xE5, CHR 0x99, CHR 0xA8,
      CHR 0xE5, CHR 0xA4, CHR 0x84, CHR 0xE7, CHR 0x90, CHR 0x86, CHR 0xE4, CHR 0xB8, CHR 0xAD,
      CHR 0x2E, CHR 0x2E, CHR 0x2E]"

subsection \<open>\<^verbatim>\<open>preflightIngestion\<close>\<close>

record preflight_json =
  pf_exists :: bool
  pf_objectId :: string
  pf_downloadUrl :: "string option"
  pf_rawUrl :: "string option"
  pf_uploadId :: "string option"

text \<open>\<open>pf_exists\<close> is \<^verbatim>\<open>data?.exists === true\<close>.\<close>

text \<open>
  \<^verbatim>\<open>data.downloadUrl ? (/^https?:\/\//.test(data.downloadUrl) ? data.downloadUrl
     : joinUrl(endpoint, data.downloadUrl)) : undefined\<close>
\<close>

definition preflight_url :: "string \<Rightarrow> string option \<Rightarrow> string option" where
  "preflight_url ep u =
     (case u of
        None \<Rightarrow> None
      | Some x \<Rightarrow>
          if x = [] then None
          else if is_http_url x then Some x else Some (joinUrl ep x))"

text \<open>
  The request, and what the function does with the answer: the callbacks it makes and the
  value it returns or the error it throws.
\<close>

definition preflightIngestion ::
  "string option \<Rightarrow> preflight_json option response \<Rightarrow> effect list \<times> (js_error + preflight_resp)"
where
  "preflightIngestion ep_opt r =
     (let ep = strip_trailing_slash
                 (case ep_opt of None \<Rightarrow> default_endpoint | Some e \<Rightarrow> e)
      in case r of
           NetFail \<Rightarrow> ([PreflightReq], Inl NetworkError)
         | Http status body \<Rightarrow>
             if \<not> ok status then ([PreflightReq], Inl (PreflightFailed status))
             else (case body of
                     None \<Rightarrow> ([PreflightReq], Inl JsonError)
                   | Some d \<Rightarrow>
                       if pf_exists d
                       then ([PreflightReq, OnServerStage (Some ''EXISTS'') 1],
                             Inr (Exists (pf_objectId d) (preflight_url ep (pf_downloadUrl d))
                                    (preflight_url ep (pf_rawUrl d))))
                       else ([PreflightReq, OnServerStage (Some ''NOT_EXISTS'') 0],
                             Inr (NotExists (pf_objectId d) (pf_uploadId d)))))"

subsection \<open>The task state of \<^verbatim>\<open>Snackbar.tsx\<close>\<close>

datatype waiting_type = W_check | W_download | W_upload | W_transcode | W_server

datatype error_type = E_download | E_upload | E_transcode | E_cancelled

text \<open>
  A label is one of the fixed texts, or the text of stage \<^verbatim>\<open>AI_POLL\<close>, which is built
  from \<^verbatim>\<open>Math.round(prog * 100)\<close>.
\<close>

datatype label = Text string | AiPollPercent jsnum

datatype TaskSnackbarState =
    Waiting waiting_type "label option"
  | Downloading jsnum
  | Uploading jsnum
  | Transcoding jsnum
  | Finished string
  | Error error_type string

text \<open>What the component does: \<^verbatim>\<open>setState\<close>, \<^verbatim>\<open>props.onStageChange\<close>, a request, a wait.\<close>

datatype ui_effect =
    SetState TaskSnackbarState
  | StageChange "string option"
  | InsightStatusReq
  | Wait nat

fun state_of :: "ui_effect \<Rightarrow> TaskSnackbarState list" where
  "state_of (SetState st) = [st]"
| "state_of e = []"

text \<open>The states the component goes through: the arguments of \<^verbatim>\<open>setState\<close>, in order.\<close>

definition states_of :: "ui_effect list \<Rightarrow> TaskSnackbarState list" where
  "states_of es = concat (map state_of es)"

text \<open>The \<^verbatim>\<open>onServerStage\<close> handed to \<^verbatim>\<open>preflightIngestion\<close> in \<^verbatim>\<open>run\<close>.\<close>

definition preflight_onServerStage :: "string option \<Rightarrow> ui_effect list" where
  "preflight_onServerStage stage =
     StageChange stage #
     (if stage = Some ''EXISTS'' then [SetState (Waiting W_check (Some (Text label_exists)))]
      else if stage = Some ''NOT_EXISTS''
      then [SetState (Waiting W_check (Some (Text label_not_exists)))]
      else [])"

fun preflight_ui :: "effect \<Rightarrow> ui_effect list" where
  "preflight_ui (OnServerStage stage p) = preflight_onServerStage stage"
| "preflight_ui e = []"

datatype run_status = RunReturned | RunThrew | RunDownloads preflight_resp

text \<open>
  \<^verbatim>\<open>run\<close> from \<^verbatim>\<open>setState({ status: "waiting", type: "check" })\<close> to the end of
  \<^verbatim>\<open>if (pre.exists) { ... }\<close>. \<open>RunReturned\<close>: the function returned there, without
  downloading and without calling \<^verbatim>\<open>startIngestion\<close>; \<open>RunThrew\<close>: an error went to the
  empty \<^verbatim>\<open>catch\<close>; \<open>RunDownloads pre\<close>: it goes on to the download and the server pipeline.
\<close>

definition run_preflight :: "preflight_json option response \<Rightarrow> ui_effect list \<times> run_status" where
  "run_preflight r =
     (let (effs, res) = preflightIngestion (Some ''http://127.0.0.1:5000'') r;
          ui = SetState (Waiting W_check None) # concat (map preflight_ui effs)
      in case res of
           Inl e \<Rightarrow> (ui, RunThrew)
         | Inr (Exists oid url raw) \<Rightarrow>
             (let link = (case url of Some u \<Rightarrow> u
                          | None \<Rightarrow> (case raw of Some v \<Rightarrow> v | None \<Rightarrow> []))
              in if link = [] then (ui, RunThrew)
                 else (ui @ [SetState (Finished link)], RunReturned))
         | Inr (NotExists oid uid) \<Rightarrow> (ui, RunDownloads (NotExists oid uid)))"

text \<open>The \<^verbatim>\<open>onServerStage\<close> handed to \<^verbatim>\<open>startIngestion\<close> in \<^verbatim>\<open>startServerPipeline\<close>.\<close>

definition pipeline_onServerStage :: "string option \<Rightarrow> real \<Rightarrow> ui_effect list" where
  "pipeline_onServerStage stage prog =
     StageChange stage #
     (if stage = Some ''QUEUED'' then [SetState (Waiting W_server (Some (Text label_queued)))]
      else if stage = Some ''MERGING'' \<or> stage = Some ''TRANSCODING''
      then [SetState (Transcoding (Fin prog))]
      else if stage = Some ''DONE'' then [SetState (Transcoding (Fin 1))]
      else [])"

text \<open>
  What \<^verbatim>\<open>startServerPipeline\<close> does at each effect of the ingestion: the two callbacks,
  and the \<^verbatim>\<open>await promise\<close> with its \<^verbatim>\<open>catch\<close>.
\<close>

fun pipeline_ui :: "effect \<Rightarrow> ui_effect list" where
  "pipeline_ui (OnUploadProgress p) = [SetState (Uploading p)]"
| "pipeline_ui (OnServerStage stage prog) = pipeline_onServerStage stage prog"
| "pipeline_ui (Settled (Resolved uid url)) =
     [SetState (Finished (case url of None \<Rightarrow> [] | Some u \<Rightarrow> u))]"
| "pipeline_ui (Settled (Rejected e)) =
     [SetState (if e = AbortError then Error E_cancelled msg_cancelled
                else Error E_transcode msg_server_failed)]"
| "pipeline_ui e = []"

definition pipeline_config :: "nat \<Rightarrow> preflight_resp option \<Rightarrow> config" where
  "pipeline_config sz pre =
     config_of sz
       \<lparr> opts_endpoint = Some ''http://127.0.0.1:5000'',
         opts_partSize = Some (8 * 1024 * 1024),
         opts_concurrency = Some 4,
         opts_preflightResult = pre \<rparr>"

text \<open>
  \<^verbatim>\<open>startServerPipeline(tsBlob, preflight)\<close> under the events \<open>xs\<close>: everything the
  component does, up to the last of them.
\<close>

definition startServerPipeline ::
  "nat \<Rightarrow> preflight_resp option \<Rightarrow> input list \<Rightarrow> ui_effect list" where
  "startServerPipeline sz pre xs =
     [SetState (Waiting W_upload None), SetState (Uploading (Fin 0))] @
     concat (map pipeline_ui (trace (run (pipeline_config sz pre) xs)))"

subsection \<open>\<^verbatim>\<open>startInsightFlow\<close>: the second polling loop\<close>

record insight_json =
  ins_stage :: "string option"
  ins_progress :: "jsnum option"
  ins_message :: "string option"

fun math_round :: "jsnum \<Rightarrow> jsnum" where
  "math_round (Fin q) = Fin (of_int \<lfloor>q + 1 / 2\<rfloor>)"
| "math_round x = x"

fun js_times_100 :: "jsnum \<Rightarrow> jsnum" where
  "js_times_100 (Fin q) = Fin (q * 100)"
| "js_times_100 x = x"

text \<open>The chain \<^verbatim>\<open>if (stage === "CHECK") ... else ...\<close> for the stages that go on.\<close>

definition insight_label :: "string \<Rightarrow> jsnum \<Rightarrow> label" where
  "insight_label stage prog =
     (if stage = ''CHECK'' then Text label_check
      else if stage = ''OSS_UPLOAD'' then Text label_oss_upload
      else if stage = ''OSS_CLEAN'' then Text label_oss_clean
      else if stage = ''AI_SUBMIT'' then Text label_ai_submit
      else if stage = ''AI_POLL'' then AiPollPercent (math_round (js_times_100 prog))
      else if stage = ''ES_INDEX'' then Text label_es_index
      else Text label_processing)"

datatype loop_end = StillPolling | LoopDone | LoopFailed | LoopThrew

text \<open>\<^verbatim>\<open>const stage = (data.stage as string) || "UNKNOWN"\<close>\<close>

definition insight_stage :: "insight_json \<Rightarrow> string" where
  "insight_stage d =
     (case ins_stage d of None \<Rightarrow> ''UNKNOWN'' | Some x \<Rightarrow> if x = [] then ''UNKNOWN'' else x)"

text \<open>\<^verbatim>\<open>const prog = Number(data.progress ?? 0)\<close>\<close>

definition insight_progress :: "insight_json \<Rightarrow> jsnum" where
  "insight_progress d = (case ins_progress d of None \<Rightarrow> Fin 0 | Some v \<Rightarrow> v)"

text \<open>\<^verbatim>\<open>data.message || "..."\<close> with the default text of a failed insight job.\<close>

definition insight_message :: "insight_json \<Rightarrow> string" where
  "insight_message d =
     (case ins_message d of
        None \<Rightarrow> msg_insight_failed
      | Some m \<Rightarrow> if m = [] then msg_insight_failed else m)"

text \<open>
  \<^verbatim>\<open>while (!done) { ... }\<close> of \<^verbatim>\<open>startInsightFlow\<close> with the \<^verbatim>\<open>catch\<close> around it, fed the
  answers of \<^verbatim>\<open>/api/insights/<objectId>/status\<close> in order. \<open>url\<close> is the \<^verbatim>\<open>blobUrl\<close> of the
  finished state the flow started from. With no answer left the loop is waiting for one
  (\<open>StillPolling\<close>).
\<close>

fun insight_loop :: "string \<Rightarrow> insight_json option response list \<Rightarrow> ui_effect list \<times> loop_end"
where
  "insight_loop url [] = ([InsightStatusReq], StillPolling)"
| "insight_loop url (r # rs) =
     (let threw = ([InsightStatusReq, SetState (Error E_transcode msg_server_failed)], LoopThrew)
      in case r of
           NetFail \<Rightarrow> threw
         | Http status body \<Rightarrow>
             if \<not> ok status then threw
             else (case body of
                     None \<Rightarrow> threw
                   | Some d \<Rightarrow>
                       (let stage = insight_stage d; prog = insight_progress d
                        in if stage = ''DONE''
                           then ([InsightStatusReq, StageChange (Some stage),
                                  SetState (Finished url)], LoopDone)
                           else if stage = ''FAILED'' \<or> stage = ''UNKNOWN''
                           then ([InsightStatusReq, StageChange (Some stage),
                                  SetState (Error E_transcode (insight_message d))],
                                 LoopFailed)
                           else ([InsightStatusReq, StageChange (Some stage),
                                  SetState (Waiting W_server (Some (insight_label stage prog))),
                                  Wait 1000] @ fst (insight_loop url rs),
                                 snd (insight_loop url rs)))))"

subsection \<open>The stage registry of \<^verbatim>\<open>App.tsx\<close>\<close>

datatype video_type = Vga | Main_video

record DownloadTask =
  courseId :: string
  courseName :: string
  courseTitle :: string
  videoType :: video_type
  autoTranscode :: bool

text \<open>
  \<^verbatim>\<open>handleStageChange(index, stage)\<close> on the task list and the map \<^verbatim>\<open>stages\<close>:
  \<^verbatim>\<open>tasks[index]\<close> is undefined out of range, and \<^verbatim>\<open>if (title)\<close> fails for the empty
  title.
\<close>

definition handleStageChange ::
  "DownloadTask list \<Rightarrow> nat \<Rightarrow> string \<Rightarrow> (string \<rightharpoonup> string) \<Rightarrow> (string \<rightharpoonup> string)" where
  "handleStageChange tasks index stage prevMap =
     (if index < length tasks \<and> courseTitle (tasks ! index) \<noteq> []
      then (let title = courseTitle (tasks ! index)
            in if prevMap title = Some ''DONE'' then prevMap
               else prevMap(title \<mapsto> stage))
      else prevMap)"

text \<open>A sequence of reports \<open>(tasks, index, stage)\<close>, each against the task list of its moment.\<close>

fun reports :: "(DownloadTask list \<times> nat \<times> string) list \<Rightarrow> (string \<rightharpoonup> string) \<Rightarrow> (string \<rightharpoonup> string)"
where
  "reports [] m = m"
| "reports ((tasks, index, stage) # rs) m = reports rs (handleStageChange tasks index stage m)"

section \<open>Notions of the statements and of the invariants\<close>

fun holds :: "worker \<Rightarrow> nat option" where
  "holds (Fetching i t) = Some i"
| "holds (Sleeping i t) = Some i"
| "holds Returned = None"
| "holds (Threw e) = None"

definition indices_of :: "config \<Rightarrow> nat list" where
  "indices_of cfg = (case array_from_length (total_of cfg) of None \<Rightarrow> [] | Some xs \<Rightarrow> xs)"

text \<open>The workers by position.\<close>

definition wmap :: "state \<Rightarrow> nat \<rightharpoonup> worker" where
  "wmap s = (\<lambda>w. if w < length (workers s) then Some (workers s ! w) else None)"

definition ls :: "nat set \<Rightarrow> nat list \<Rightarrow> nat list \<Rightarrow> bool" where
  "ls idx q a \<longleftrightarrow>
     distinct q \<and> distinct a \<and> set q \<inter> set a = {} \<and> set q \<subseteq> idx \<and> set a \<subseteq> idx"

definition hd_ok :: "nat set \<Rightarrow> nat list \<Rightarrow> nat list \<Rightarrow> (nat \<rightharpoonup> worker) \<Rightarrow> bool" where
  "hd_ok idx q a m \<longleftrightarrow>
     (\<forall>w x i. m w = Some x \<longrightarrow> holds x = Some i \<longrightarrow> i \<in> idx \<and> i \<notin> set q \<and> i \<notin> set a)"

definition un :: "(nat \<rightharpoonup> worker) \<Rightarrow> bool" where
  "un m \<longleftrightarrow>
     (\<forall>w v x y i. m w = Some x \<longrightarrow> m v = Some y \<longrightarrow> holds x = Some i \<longrightarrow> holds y = Some i
        \<longrightarrow> w = v)"

definition dr :: "nat list \<Rightarrow> (nat \<rightharpoonup> worker) \<Rightarrow> bool" where
  "dr q m \<longleftrightarrow> ((\<exists>w. m w = Some Returned) \<longrightarrow> q = [])"

definition bk :: "nat set \<Rightarrow> nat list \<Rightarrow> nat list \<Rightarrow> (nat \<rightharpoonup> worker) \<Rightarrow> bool" where
  "bk idx q a m \<longleftrightarrow> ls idx q a \<and> hd_ok idx q a m \<and> un m \<and> dr q m"

definition cv :: "nat set \<Rightarrow> nat list \<Rightarrow> nat list \<Rightarrow> (nat \<rightharpoonup> worker) \<Rightarrow> bool" where
  "cv idx q a m \<longleftrightarrow>
     ((\<forall>w e. m w \<noteq> Some (Threw e)) \<longrightarrow>
      (\<forall>i \<in> idx. i \<in> set q \<or> i \<in> set a \<or> (\<exists>w x. m w = Some x \<and> holds x = Some i)))"

fun is_seg :: "nat \<Rightarrow> effect \<Rightarrow> bool" where
  "is_seg i (SegmentReq u j a b) = (j = i)"
| "is_seg i e = False"

definition attempts :: "nat \<Rightarrow> effect list \<Rightarrow> nat" where
  "attempts i tr = length (filter (is_seg i) tr)"

definition tr_ok :: "effect list \<Rightarrow> nat list \<Rightarrow> (nat \<rightharpoonup> worker) \<Rightarrow> bool" where
  "tr_ok tr q m \<longleftrightarrow>
     (\<forall>i. attempts i tr \<le> 3) \<and> (\<forall>i \<in> set q. attempts i tr = 0) \<and>
     (\<forall>w i t. m w = Some (Fetching i t) \<longrightarrow> attempts i tr + t = 3) \<and>
     (\<forall>w i t. m w = Some (Sleeping i t) \<longrightarrow> attempts i tr + t = 3)"

text \<open>
  Whether, at the end of a trace, a 400 ms timer has been set since the last request for
  segment \<open>i\<close> (or no request for it has been made).
\<close>

fun rested_rev :: "nat \<Rightarrow> effect list \<Rightarrow> bool" where
  "rested_rev i [] = True"
| "rested_rev i (e # es) =
     (if e = SetTimeout 400 then True else if is_seg i e then False else rested_rev i es)"

definition rested :: "nat \<Rightarrow> effect list \<Rightarrow> bool" where
  "rested i tr = rested_rev i (rev tr)"

text \<open>Every request for segment \<open>i\<close> in the trace is made after such a rest.\<close>

definition spaced :: "nat \<Rightarrow> effect list \<Rightarrow> bool" where
  "spaced i tr \<longleftrightarrow> (\<forall>n < length tr. is_seg i (tr ! n) \<longrightarrow> rested i (take n tr))"

definition sp_ok :: "effect list \<Rightarrow> (nat \<rightharpoonup> worker) \<Rightarrow> bool" where
  "sp_ok tr m \<longleftrightarrow>
     (\<forall>i. spaced i tr) \<and> (\<forall>w i t. m w = Some (Sleeping i t) \<longrightarrow> rested i tr)"

definition sg :: "config \<Rightarrow> effect list \<Rightarrow> bool" where
  "sg cfg tr \<longleftrightarrow>
     (\<forall>u i a b. SegmentReq u i a b \<in> set tr \<longrightarrow>
        i \<in> set (indices_of cfg) \<and> a = fst (chunk_range cfg i) \<and> b = snd (chunk_range cfg i))"

fun progress_of :: "effect \<Rightarrow> jsnum list" where
  "progress_of (OnUploadProgress p) = [p]"
| "progress_of e = []"

definition progress_values :: "effect list \<Rightarrow> jsnum list" where
  "progress_values tr = concat (map progress_of tr)"

definition ct :: "config \<Rightarrow> effect list \<Rightarrow> nat list \<Rightarrow> nat \<Rightarrow> bool" where
  "ct cfg tr a u \<longleftrightarrow>
     u = length a \<and>
     progress_values tr = map (\<lambda>k. js_div_num k (total_of cfg)) [1 ..< Suc u]"

definition aw :: "(nat \<rightharpoonup> worker) \<Rightarrow> bool" where
  "aw m \<longleftrightarrow> (\<forall>w i. m w \<noteq> Some (Sleeping i 0))"

definition UP ::
  "config \<Rightarrow> nat list \<Rightarrow> nat list \<Rightarrow> (nat \<rightharpoonup> worker) \<Rightarrow> effect list \<Rightarrow> nat \<Rightarrow> bool" where
  "UP cfg q a m tr u \<longleftrightarrow>
     ls (set (indices_of cfg)) q a \<and> hd_ok (set (indices_of cfg)) q a m \<and> un m \<and> dr q m \<and>
     cv (set (indices_of cfg)) q a m \<and> aw m \<and> tr_ok tr q m \<and> sp_ok tr m \<and> sg cfg tr \<and>
     ct cfg tr a u"

definition Up :: "config \<Rightarrow> state \<Rightarrow> bool" where
  "Up cfg s \<longleftrightarrow> UP cfg (queue s) (acked s) (wmap s) (trace s) (uploaded s)"

definition UpT :: "config \<Rightarrow> nat \<Rightarrow> state \<Rightarrow> bool" where
  "UpT cfg w s \<longleftrightarrow> UP cfg (queue s) (acked s) ((wmap s)(w := None)) (trace s) (uploaded s)"

fun is_early :: "effect \<Rightarrow> bool" where
  "is_early (InitReq n) = True"
| "is_early (OnServerStage st p) = True"
| "is_early (Settled r) = True"
| "is_early e = False"

definition pre_upload :: "state \<Rightarrow> bool" where
  "pre_upload s \<longleftrightarrow>
     workers s = [] \<and> queue s = [] \<and> acked s = [] \<and> uploaded s = 0 \<and>
     (\<forall>e \<in> set (trace s). is_early e)"

definition Ph :: "config \<Rightarrow> state \<Rightarrow> bool" where
  "Ph cfg s \<longleftrightarrow>
     phase s \<noteq> Running \<and> phase s \<noteq> AwaitInit \<and> length (workers s) = concurrency cfg \<and>
     (phase s = AwaitWorkers \<longrightarrow> (\<forall>e. Threw e \<notin> set (workers s))) \<and>
     ((phase s = AwaitComplete \<or> phase s = AwaitStatus \<or> phase s = AwaitPollTimer \<or>
       (\<exists>u d. phase s = Done (Resolved u d))) \<longrightarrow> (\<forall>x \<in> set (workers s). x = Returned)) \<and>
     ((\<exists>u. CompleteReq u \<in> set (trace s)) \<longrightarrow> (\<forall>x \<in> set (workers s). x = Returned))"

fun is_segreq :: "effect \<Rightarrow> bool" where
  "is_segreq (SegmentReq u i a b) = True"
| "is_segreq e = False"

definition spawning :: "state \<Rightarrow> state \<Rightarrow> bool" where
  "spawning s s' \<longleftrightarrow>
     phase s' = Running \<and>
     (\<exists>es. trace s' = trace s @ es \<and> (\<forall>e \<in> set es. is_segreq e))"

definition Early :: "state \<Rightarrow> bool" where
  "Early s \<longleftrightarrow> pre_upload s \<and> (phase s = AwaitInit \<or> (\<exists>r. phase s = Done r))"

definition Reach :: "config \<Rightarrow> state \<Rightarrow> bool" where
  "Reach cfg s \<longleftrightarrow> Early s \<or> (Up cfg s \<and> Ph cfg s)"

text \<open>The spec's segment count: the ceiling of \<open>S / P\<close>.\<close>

definition ceil_div :: "nat \<Rightarrow> nat \<Rightarrow> nat" where
  "ceil_div S P = nat \<lceil>(of_nat S :: real) / of_nat P\<rceil>"

definition example_config :: config where
  "example_config =
     \<lparr> tsBlob_size = 20, endpoint = ''http://h'', partSize = 8, concurrency = 2,
       preflightResult = None \<rparr>"

definition init_ok :: input where
  "init_ok = InitResponse (Http 200 (Some
     \<lparr> init_uploadId = Some ''u'', init_exists = False, init_downloadUrl = None \<rparr>))"

definition example_upload :: "input list" where
  "example_upload =
     [init_ok, SegmentResponse 0 (Http 200 ()), SegmentResponse 1 (Http 500 ()),
      SegmentResponse 0 (Http 200 ()), RetryTimer 1, SegmentResponse 1 (Http 200 ())]"

definition js_le :: "jsnum \<Rightarrow> jsnum \<Rightarrow> bool" where
  "js_le x y = (case x of Fin a \<Rightarrow> (case y of Fin b \<Rightarrow> a \<le> b | _ \<Rightarrow> False) | _ \<Rightarrow> False)"

text \<open>
  The acknowledgment an event brings, seen from outside the upload: the answer of the
  server to the pending request of worker \<open>w\<close>, for segment \<open>i\<close>, with a status for which
  \<^verbatim>\<open>res.ok\<close> holds. A network failure, another status, an answer nothing waits for and
  every other event acknowledge nothing.
\<close>

definition ack_of :: "state \<Rightarrow> input \<Rightarrow> nat list" where
  "ack_of s x =
     (case x of
        SegmentResponse w r \<Rightarrow>
          (case r of
             NetFail \<Rightarrow> []
           | Http status u \<Rightarrow>
               if w < length (workers s) \<and> 200 \<le> status \<and> status \<le> 299
               then (case workers s ! w of Fetching i t \<Rightarrow> [i] | _ \<Rightarrow> [])
               else [])
      | _ \<Rightarrow> [])"

text \<open>The segments acknowledged by the events \<open>xs\<close> from the state \<open>s\<close> on, in order.\<close>

fun acks :: "config \<Rightarrow> state \<Rightarrow> input list \<Rightarrow> nat list" where
  "acks cfg s [] = []"
| "acks cfg s (x # xs) = ack_of s x @ acks cfg (step cfg s x) xs"

definition acknowledged :: "config \<Rightarrow> input list \<Rightarrow> nat list" where
  "acknowledged cfg xs = acks cfg (start cfg) xs"

definition example_first_ack :: "input list" where
  "example_first_ack = [init_ok, SegmentResponse 0 (Http 200 ())]"

definition retries_prefix :: "input list" where
  "retries_prefix =
     [init_ok, SegmentResponse 0 (Http 500 ()), RetryTimer 0, SegmentResponse 0 (Http 500 ()),
      RetryTimer 0]"

definition empty_config :: config where
  "empty_config =
     \<lparr> tsBlob_size = 0, endpoint = ''http://h'', partSize = 8, concurrency = 4,
       preflightResult = None \<rparr>"

text \<open>The three stages at which the polling loop of \<^verbatim>\<open>startIngestion\<close> ends.\<close>

definition terminal :: "string option \<Rightarrow> bool" where
  "terminal stage \<longleftrightarrow>
     stage = Some ''DONE'' \<or> stage = Some ''FAILED'' \<or> stage = Some ''UNKNOWN''"

text \<open>What the caller observes of one status answer: the call of \<^verbatim>\<open>onServerStage\<close>.\<close>

definition observation :: "status_json \<Rightarrow> effect" where
  "observation b = OnServerStage (st_stage b) (status_progress b)"

text \<open>One round of the loop that goes on: the observation, the wait, the next request.\<close>

definition cycle :: "string \<Rightarrow> status_json \<Rightarrow> effect list" where
  "cycle uid b = [observation b, SetTimeout 1000, StatusReq uid]"

text \<open>
  A sequence of status answers as events: each answer arrives, then the timer of one
  second fires.
\<close>

fun poll_events :: "status_json list \<Rightarrow> input list" where
  "poll_events [] = []"
| "poll_events (b # bs) = StatusResponse (Http 200 (Some b)) # PollTimer # poll_events bs"







text \<open>
  A task of 1000 bytes as \<^verbatim>\<open>startServerPipeline\<close> configures it, with no preflight result:
  one segment, four workers.
\<close>

definition small_task :: config where
  "small_task = pipeline_config 1000 None"

text \<open>Its upload without a failure, up to the first status request.\<close>

definition pipeline_upload :: "input list" where
  "pipeline_upload = [init_ok, SegmentResponse 0 (Http 200 ()), CompleteResponse (Http 200 ())]"

text \<open>The scripted answers: \<^verbatim>\<open>QUEUED, MERGING, TRANSCODING(0.3), TRANSCODING(0.9), DONE\<close>.\<close>

definition stage_answer :: "string \<Rightarrow> jsnum option \<Rightarrow> string option \<Rightarrow> status_json" where
  "stage_answer stage p url =
     \<lparr> st_stage = Some stage, st_progress = p, st_downloadUrl = url, st_message = None \<rparr>"

definition scripted_stages :: "status_json list" where
  "scripted_stages =
     [stage_answer ''QUEUED'' None None,
      stage_answer ''MERGING'' None None,
      stage_answer ''TRANSCODING'' (Some (Fin (3 / 10))) None,
      stage_answer ''TRANSCODING'' (Some (Fin (9 / 10))) None,
      stage_answer ''DONE'' (Some (Fin 1)) (Some ''/files/a.mp4'')]"

text \<open>An answer \<^verbatim>\<open>{stage: "FAILED", message: "boom"}\<close>.\<close>

definition failed_boom :: status_json where
  "failed_boom =
     \<lparr> st_stage = Some ''FAILED'', st_progress = None, st_downloadUrl = None,
       st_message = Some ''boom'' \<rparr>"

text \<open>
  The only segment fails once, and \<^verbatim>\<open>cancel()\<close> is called during the 400 ms before the
  next attempt.
\<close>

definition cancel_in_backoff :: "input list" where
  "cancel_in_backoff = [init_ok, SegmentResponse 0 (Http 500 ()), Cancel]"

text \<open>A preflight answer \<^verbatim>\<open>{exists: true, objectId: "o"}\<close> with the two links given.\<close>

definition exists_answer :: "string option \<Rightarrow> string option \<Rightarrow> preflight_json" where
  "exists_answer url raw =
     \<lparr> pf_exists = True, pf_objectId = ''o'', pf_downloadUrl = url, pf_rawUrl = raw,
       pf_uploadId = None \<rparr>"

definition example_task :: DownloadTask where
  "example_task =
     \<lparr> courseId = ''1'', courseName = ''n'', courseTitle = ''t'', videoType = Vga,
       autoTranscode = True \<rparr>"

section \<open>What each part of a step does to the state\<close>

lemma emit_fields [simp]:
  "uploadId (emit e s) = uploadId s" "queue (emit e s) = queue s"
  "uploaded (emit e s) = uploaded s" "aborted (emit e s) = aborted s"
  "workers (emit e s) = workers s" "phase (emit e s) = phase s"
  "acked (emit e s) = acked s" "trace (emit e s) = trace s @ [e]"
  by (simp_all add: emit_def)

lemma settle_fields [simp]:
  "uploadId (settle r s) = uploadId s" "queue (settle r s) = queue s"
  "uploaded (settle r s) = uploaded s" "aborted (settle r s) = aborted s"
  "workers (settle r s) = workers s" "phase (settle r s) = Done r"
  "acked (settle r s) = acked s" "trace (settle r s) = trace s @ [Settled r]"
  by (simp_all add: settle_def)

lemma request_complete_fields [simp]:
  "uploadId (request_complete s) = uploadId s" "queue (request_complete s) = queue s"
  "uploaded (request_complete s) = uploaded s" "aborted (request_complete s) = aborted s"
  "workers (request_complete s) = workers s" "phase (request_complete s) = AwaitComplete"
  "acked (request_complete s) = acked s"
  "trace (request_complete s) = trace s @ [CompleteReq (uploadId s)]"
  by (simp_all add: request_complete_def)

lemma worker_throw_fields [simp]:
  "uploadId (worker_throw w e s) = uploadId s" "queue (worker_throw w e s) = queue s"
  "uploaded (worker_throw w e s) = uploaded s" "aborted (worker_throw w e s) = aborted s"
  "workers (worker_throw w e s) = (workers s)[w := Threw e]"
  "phase (worker_throw w e s) = (if phase s = AwaitWorkers then Done (Rejected e) else phase s)"
  "acked (worker_throw w e s) = acked s"
  "trace (worker_throw w e s) =
     trace s @ (if phase s = AwaitWorkers then [Settled (Rejected e)] else [])"
  by (simp_all add: worker_throw_def Let_def)

lemma worker_return_fields [simp]:
  "uploadId (worker_return w s) = uploadId s" "queue (worker_return w s) = queue s"
  "uploaded (worker_return w s) = uploaded s" "aborted (worker_return w s) = aborted s"
  "workers (worker_return w s) = (workers s)[w := Returned]"
  "phase (worker_return w s) =
     (if phase s = AwaitWorkers \<and> (\<forall>x \<in> set ((workers s)[w := Returned]). x = Returned)
      then AwaitComplete else phase s)"
  "acked (worker_return w s) = acked s"
  "trace (worker_return w s) =
     trace s @ (if phase s = AwaitWorkers \<and> (\<forall>x \<in> set ((workers s)[w := Returned]). x = Returned)
                then [CompleteReq (uploadId s)] else [])"
  by (simp_all add: worker_return_def Let_def)

lemma send_segment_fields [simp]:
  "uploadId (send_segment cfg w i t s) = uploadId s" "queue (send_segment cfg w i t s) = queue s"
  "uploaded (send_segment cfg w i t s) = uploaded s"
  "aborted (send_segment cfg w i t s) = aborted s"
  "workers (send_segment cfg w i t s) = (workers s)[w := Fetching i t]"
  "phase (send_segment cfg w i t s) = phase s"
  "acked (send_segment cfg w i t s) = acked s"
  "trace (send_segment cfg w i t s) =
     trace s @ [SegmentReq (uploadId s) i (fst (chunk_range cfg i)) (snd (chunk_range cfg i))]"
  by (simp_all add: send_segment_def)

lemma worker_loop_Nil: "queue s = [] \<Longrightarrow> worker_loop cfg w s = worker_return w s"
  by (simp add: worker_loop_def)

lemma worker_loop_Cons:
  "queue s = i # q \<Longrightarrow>
   worker_loop cfg w s =
     (if aborted s then worker_throw w AbortError (s\<lparr>queue := q\<rparr>)
      else send_segment cfg w i 2 (s\<lparr>queue := q\<rparr>))"
  by (simp add: worker_loop_def Let_def)

lemma worker_loop_keeps [simp]:
  "uploadId (worker_loop cfg w s) = uploadId s" "uploaded (worker_loop cfg w s) = uploaded s"
  "aborted (worker_loop cfg w s) = aborted s" "acked (worker_loop cfg w s) = acked s"
  "queue (worker_loop cfg w s) = tl (queue s)"
  "length (workers (worker_loop cfg w s)) = length (workers s)"
  by (cases "queue s"; simp add: worker_loop_Nil worker_loop_Cons)+

section \<open>Bookkeeping of the segment indices\<close>

lemma cvI:
  "(\<And>i. \<forall>w e. m w \<noteq> Some (Threw e) \<Longrightarrow> i \<in> idx \<Longrightarrow>
      i \<in> set q \<or> i \<in> set a \<or> (\<exists>w x. m w = Some x \<and> holds x = Some i)) \<Longrightarrow> cv idx q a m"
  unfolding cv_def by blast

lemma cvD:
  "cv idx q a m \<Longrightarrow> \<forall>w e. m w \<noteq> Some (Threw e) \<Longrightarrow> i \<in> idx \<Longrightarrow>
   i \<in> set q \<or> i \<in> set a \<or> (\<exists>w x. m w = Some x \<and> holds x = Some i)"
  unfolding cv_def by blast

lemma no_threw_drop:
  assumes "\<forall>v e. (m(w \<mapsto> y)) v \<noteq> Some (Threw e)"
  shows "\<forall>v e. (m(w := None)) v \<noteq> Some (Threw e)"
proof (intro allI)
  fix v e
  show "(m(w := None)) v \<noteq> Some (Threw e)"
    using assms [rule_format, of v e] by (cases "v = w") simp_all
qed

lemma cv_put:
  assumes c: "cv idx q' a (m(w := None))"
    and q: "set q' \<subseteq> set q \<union> (case holds y of None \<Rightarrow> {} | Some j \<Rightarrow> {j})"
  shows "cv idx q a (m(w \<mapsto> y))"
proof (rule cvI)
  fix i
  assume nt: "\<forall>v e. (m(w \<mapsto> y)) v \<noteq> Some (Threw e)" and i: "i \<in> idx"
  from cvD [OF c no_threw_drop [OF nt] i]
  consider "i \<in> set q'" | "i \<in> set a" | v x where "(m(w := None)) v = Some x" "holds x = Some i"
    by blast
  then show "i \<in> set q \<or> i \<in> set a \<or> (\<exists>v x. (m(w \<mapsto> y)) v = Some x \<and> holds x = Some i)"
  proof cases
    case 1
    with q have "i \<in> set q \<or> holds y = Some i"
      by (cases "holds y") auto
    then show ?thesis
    proof
      assume "holds y = Some i"
      moreover have "(m(w \<mapsto> y)) w = Some y" by simp
      ultimately show ?thesis by blast
    qed simp
  next
    case 2
    then show ?thesis by simp
  next
    case 3
    then have "v \<noteq> w" by (auto split: if_splits)
    with 3 have "(m(w \<mapsto> y)) v = Some x" by simp
    with 3 show ?thesis by blast
  qed
qed

lemma cv_return: "cv idx q a (m(w := None)) \<Longrightarrow> cv idx q a (m(w \<mapsto> Returned))"
  by (rule cv_put) auto

lemma cv_take: "cv idx (j # q) a (m(w := None)) \<Longrightarrow> cv idx q a (m(w \<mapsto> Fetching j t))"
  by (rule cv_put) auto

lemma cv_throw: "cv idx q a (m(w \<mapsto> Threw e))"
proof -
  have "(m(w \<mapsto> Threw e)) w = Some (Threw e)" by simp
  then show ?thesis unfolding cv_def by blast
qed

lemma cv_ack:
  assumes c: "cv idx q a m" and w: "m w = Some x" "holds x = Some i"
  shows "cv idx q (a @ [i]) (m(w := None))"
proof (rule cvI)
  fix k
  assume nt: "\<forall>v e. (m(w := None)) v \<noteq> Some (Threw e)" and k: "k \<in> idx"
  have "\<forall>v e. m v \<noteq> Some (Threw e)"
  proof (intro allI)
    fix v e
    show "m v \<noteq> Some (Threw e)"
    proof (cases "v = w")
      case True
      with w show ?thesis by auto
    next
      case False
      with nt [rule_format, of v e] show ?thesis by simp
    qed
  qed
  from cvD [OF c this k]
  consider "k \<in> set q" | "k \<in> set a" | v y where "m v = Some y" "holds y = Some k"
    by blast
  then show "k \<in> set q \<or> k \<in> set (a @ [i]) \<or>
             (\<exists>v y. (m(w := None)) v = Some y \<and> holds y = Some k)"
  proof cases
    case 3
    show ?thesis
    proof (cases "v = w")
      case True
      with 3 w have "k = i" by simp
      then show ?thesis by simp
    next
      case False
      with 3 have "(m(w := None)) v = Some y" by simp
      with 3 show ?thesis by blast
    qed
  qed auto
qed

lemma cv_same:
  assumes c: "cv idx q a m" and w: "m w = Some x" "holds x = Some i" "holds y = Some i"
  shows "cv idx q a (m(w \<mapsto> y))"
proof -
  show ?thesis
  proof (rule cvI)
    fix k
    assume nt: "\<forall>v e. (m(w \<mapsto> y)) v \<noteq> Some (Threw e)" and k: "k \<in> idx"
    have "\<forall>v e. m v \<noteq> Some (Threw e)"
    proof (intro allI)
      fix v e
      show "m v \<noteq> Some (Threw e)"
      proof (cases "v = w")
        case True
        with w show ?thesis by auto
      next
        case False
        with nt [rule_format, of v e] show ?thesis by simp
      qed
    qed
    from cvD [OF c this k]
    consider "k \<in> set q" | "k \<in> set a" | v z where "m v = Some z" "holds z = Some k"
      by blast
    then show "k \<in> set q \<or> k \<in> set a \<or> (\<exists>v z. (m(w \<mapsto> y)) v = Some z \<and> holds z = Some k)"
    proof cases
      case 3
      show ?thesis
      proof (cases "v = w")
        case True
        with 3 w have "holds y = Some k" by simp
        moreover have "(m(w \<mapsto> y)) w = Some y" by simp
        ultimately show ?thesis by blast
      next
        case False
        with 3 have "(m(w \<mapsto> y)) v = Some z" by simp
        with 3 show ?thesis by blast
      qed
    qed auto
  qed
qed

lemma hd_ok_put:
  assumes h: "hd_ok idx q a (m(w := None))"
    and y: "\<And>i. holds y = Some i \<Longrightarrow> i \<in> idx \<and> i \<notin> set q' \<and> i \<notin> set a"
    and q: "set q' \<subseteq> set q"
  shows "hd_ok idx q' a (m(w \<mapsto> y))"
  unfolding hd_ok_def
proof (intro allI impI)
  fix v x i
  assume v: "(m(w \<mapsto> y)) v = Some x" and x: "holds x = Some i"
  show "i \<in> idx \<and> i \<notin> set q' \<and> i \<notin> set a"
  proof (cases "v = w")
    case True
    with v have "x = y" by simp
    with x y show ?thesis by simp
  next
    case False
    with v have "(m(w := None)) v = Some x" by simp
    with h x have "i \<in> idx \<and> i \<notin> set q \<and> i \<notin> set a"
      unfolding hd_ok_def by blast
    with q show ?thesis by auto
  qed
qed

lemma hd_ok_drop:
  assumes h: "hd_ok idx q a m"
  shows "hd_ok idx q a (m(w := None))"
  unfolding hd_ok_def
proof (intro allI impI)
  fix v x i
  assume v: "(m(w := None)) v = Some x" and x: "holds x = Some i"
  then have "m v = Some x" by (cases "v = w") simp_all
  with h x show "i \<in> idx \<and> i \<notin> set q \<and> i \<notin> set a"
    unfolding hd_ok_def by blast
qed

lemma hd_ok_ack:
  assumes h: "hd_ok idx q a m" and u: "un m" and w: "m w = Some x" "holds x = Some i"
  shows "hd_ok idx q (a @ [i]) (m(w := None))"
  unfolding hd_ok_def
proof (intro allI impI)
  fix v z k
  assume v: "(m(w := None)) v = Some z" and z: "holds z = Some k"
  then have vw: "v \<noteq> w" and mv: "m v = Some z" by (cases "v = w"; simp)+
  from h mv z have "k \<in> idx \<and> k \<notin> set q \<and> k \<notin> set a"
    unfolding hd_ok_def by blast
  moreover have "k \<noteq> i"
  proof
    assume "k = i"
    with u mv z w have "v = w" unfolding un_def by blast
    with vw show False by simp
  qed
  ultimately show "k \<in> idx \<and> k \<notin> set q \<and> k \<notin> set (a @ [i])" by simp
qed

lemma un_put:
  assumes u: "un (m(w := None))"
    and y: "\<And>i v x. holds y = Some i \<Longrightarrow> v \<noteq> w \<Longrightarrow> m v = Some x \<Longrightarrow> holds x \<noteq> Some i"
  shows "un (m(w \<mapsto> y))"
  unfolding un_def
proof (intro allI impI)
  fix u' v x z i
  assume a: "(m(w \<mapsto> y)) u' = Some x" "(m(w \<mapsto> y)) v = Some z"
    "holds x = Some i" "holds z = Some i"
  show "u' = v"
  proof (cases "u' = w")
    case uw: True
    show ?thesis
    proof (cases "v = w")
      case True
      with uw show ?thesis by simp
    next
      case False
      with a uw have "x = y" "m v = Some z" by simp_all
      with y [of i v z] a False show ?thesis by simp
    qed
  next
    case uw: False
    show ?thesis
    proof (cases "v = w")
      case True
      with a uw have "z = y" "m u' = Some x" by simp_all
      with y [of i u' x] a uw show ?thesis by simp
    next
      case False
      with a uw have "(m(w := None)) u' = Some x" "(m(w := None)) v = Some z" by simp_all
      with u a show ?thesis unfolding un_def by blast
    qed
  qed
qed

lemma un_drop:
  assumes u: "un m"
  shows "un (m(w := None))"
  unfolding un_def
proof (intro allI impI)
  fix u' v x z i
  assume a: "(m(w := None)) u' = Some x" "(m(w := None)) v = Some z"
    "holds x = Some i" "holds z = Some i"
  then have "m u' = Some x" "m v = Some z" by (cases "u' = w"; cases "v = w"; simp)+
  with u a show "u' = v" unfolding un_def by blast
qed

lemma dr_put: "dr q (m(w := None)) \<Longrightarrow> y = Returned \<longrightarrow> q' = [] \<Longrightarrow> q = [] \<longrightarrow> q' = [] \<Longrightarrow> dr q' (m(w \<mapsto> y))"
  unfolding dr_def
  apply (intro impI)
  apply (erule exE)
  subgoal for v
    by (cases "v = w") auto
  done

lemma dr_drop: "dr q m \<Longrightarrow> dr q (m(w := None))"
  unfolding dr_def
  apply (intro impI)
  apply (erule exE)
  subgoal for v
    by (cases "v = w") auto
  done

lemma ls_tl: "ls idx q a \<Longrightarrow> ls idx (tl q) a"
  unfolding ls_def by (cases q) auto

lemma ls_ack: "ls idx q a \<Longrightarrow> i \<in> idx \<Longrightarrow> i \<notin> set q \<Longrightarrow> i \<notin> set a \<Longrightarrow> ls idx q (a @ [i])"
  unfolding ls_def by auto

lemma attempts_snoc [simp]:
  "attempts i (tr @ [e]) = attempts i tr + (if is_seg i e then 1 else 0)"
  by (simp add: attempts_def)

lemma attempts_Nil [simp]: "attempts i [] = 0"
  by (simp add: attempts_def)

lemma tr_okI:
  assumes "\<And>i. attempts i tr \<le> 3" "\<And>i. i \<in> set q \<Longrightarrow> attempts i tr = 0"
    "\<And>w i t. m w = Some (Fetching i t) \<Longrightarrow> attempts i tr + t = 3"
    "\<And>w i t. m w = Some (Sleeping i t) \<Longrightarrow> attempts i tr + t = 3"
  shows "tr_ok tr q m"
  using assms unfolding tr_ok_def by blast

lemma tr_ok_le: "tr_ok tr q m \<Longrightarrow> attempts i tr \<le> 3"
  unfolding tr_ok_def by blast

lemma tr_ok_queue: "tr_ok tr q m \<Longrightarrow> i \<in> set q \<Longrightarrow> attempts i tr = 0"
  unfolding tr_ok_def by blast

lemma tr_ok_fetching: "tr_ok tr q m \<Longrightarrow> m w = Some (Fetching i t) \<Longrightarrow> attempts i tr + t = 3"
  unfolding tr_ok_def by blast

lemma tr_ok_sleeping: "tr_ok tr q m \<Longrightarrow> m w = Some (Sleeping i t) \<Longrightarrow> attempts i tr + t = 3"
  unfolding tr_ok_def by blast

text \<open>An effect that is no segment request.\<close>

lemma tr_ok_quiet: "tr_ok tr q m \<Longrightarrow> \<forall>i. \<not> is_seg i e \<Longrightarrow> tr_ok (tr @ [e]) q m"
  unfolding tr_ok_def by simp

text \<open>A worker stops holding, or holds nothing new.\<close>

lemma tr_ok_put:
  assumes t: "tr_ok tr q (m(w := None))" and y: "holds y = None" and q: "set q' \<subseteq> set q"
  shows "tr_ok tr q' (m(w \<mapsto> y))"
proof (rule tr_okI)
  fix i show "attempts i tr \<le> 3" using t by (rule tr_ok_le)
next
  fix i assume "i \<in> set q'"
  with q have "i \<in> set q" by auto
  with t show "attempts i tr = 0" by (rule tr_ok_queue)
next
  fix v i k assume a: "(m(w \<mapsto> y)) v = Some (Fetching i k)"
  with y have "v \<noteq> w" by (cases "v = w") auto
  with a have "(m(w := None)) v = Some (Fetching i k)" by simp
  with t show "attempts i tr + k = 3" by (rule tr_ok_fetching)
next
  fix v i k assume a: "(m(w \<mapsto> y)) v = Some (Sleeping i k)"
  with y have "v \<noteq> w" by (cases "v = w") auto
  with a have "(m(w := None)) v = Some (Sleeping i k)" by simp
  with t show "attempts i tr + k = 3" by (rule tr_ok_sleeping)
qed

lemma tr_ok_drop:
  assumes t: "tr_ok tr q m"
  shows "tr_ok tr q (m(w := None))"
proof (rule tr_okI)
  fix i show "attempts i tr \<le> 3" using t by (rule tr_ok_le)
next
  fix i assume "i \<in> set q"
  with t show "attempts i tr = 0" by (rule tr_ok_queue)
next
  fix v i k assume a: "(m(w := None)) v = Some (Fetching i k)"
  then have "m v = Some (Fetching i k)" by (cases "v = w") simp_all
  with t show "attempts i tr + k = 3" by (rule tr_ok_fetching)
next
  fix v i k assume a: "(m(w := None)) v = Some (Sleeping i k)"
  then have "m v = Some (Sleeping i k)" by (cases "v = w") simp_all
  with t show "attempts i tr + k = 3" by (rule tr_ok_sleeping)
qed

text \<open>The first request for an index taken from the queue.\<close>

lemma tr_ok_take:
  assumes t: "tr_ok tr (j # q) (m(w := None))"
    and l: "ls idx (j # q) a" and h: "hd_ok idx (j # q) a (m(w := None))"
  shows "tr_ok (tr @ [SegmentReq u j b c]) q (m(w \<mapsto> Fetching j 2))"
proof (rule tr_okI)
  have j0: "attempts j tr = 0" using t by (rule tr_ok_queue) simp
  fix i show "attempts i (tr @ [SegmentReq u j b c]) \<le> 3"
    using tr_ok_le [OF t, of i] j0 by (cases "i = j") simp_all
next
  fix i assume i: "i \<in> set q"
  with l have "i \<noteq> j" unfolding ls_def by auto
  moreover from t i have "attempts i tr = 0" by (intro tr_ok_queue [OF t]) simp
  ultimately show "attempts i (tr @ [SegmentReq u j b c]) = 0" by simp
next
  have j0: "attempts j tr = 0" using t by (rule tr_ok_queue) simp
  fix v i k assume a: "(m(w \<mapsto> Fetching j 2)) v = Some (Fetching i k)"
  show "attempts i (tr @ [SegmentReq u j b c]) + k = 3"
  proof (cases "v = w")
    case True
    with a have "i = j" "k = 2" by simp_all
    with j0 show ?thesis by simp
  next
    case False
    with a have mv: "(m(w := None)) v = Some (Fetching i k)" by simp
    with h have "i \<notin> set (j # q)" unfolding hd_ok_def by fastforce
    then have "i \<noteq> j" by simp
    with tr_ok_fetching [OF t mv] show ?thesis by simp
  qed
next
  fix v i k assume a: "(m(w \<mapsto> Fetching j 2)) v = Some (Sleeping i k)"
  then have "v \<noteq> w" by (cases "v = w") auto
  with a have mv: "(m(w := None)) v = Some (Sleeping i k)" by simp
  with h have "i \<notin> set (j # q)" unfolding hd_ok_def by fastforce
  then have "i \<noteq> j" by simp
  with tr_ok_sleeping [OF t mv] show "attempts i (tr @ [SegmentReq u j b c]) + k = 3" by simp
qed

text \<open>A failed request with tries left: the worker sleeps.\<close>

lemma tr_ok_sleep:
  assumes t: "tr_ok tr q m" and w: "m w = Some (Fetching i k)"
  shows "tr_ok tr q (m(w \<mapsto> Sleeping i k))"
proof (rule tr_okI)
  fix i show "attempts i tr \<le> 3" using t by (rule tr_ok_le)
next
  fix i assume "i \<in> set q"
  with t show "attempts i tr = 0" by (rule tr_ok_queue)
next
  fix v i' k' assume a: "(m(w \<mapsto> Sleeping i k)) v = Some (Fetching i' k')"
  then have "v \<noteq> w" by (cases "v = w") auto
  with a have "m v = Some (Fetching i' k')" by simp
  with t show "attempts i' tr + k' = 3" by (rule tr_ok_fetching)
next
  fix v i' k' assume a: "(m(w \<mapsto> Sleeping i k)) v = Some (Sleeping i' k')"
  show "attempts i' tr + k' = 3"
  proof (cases "v = w")
    case True
    with a have "i' = i" "k' = k" by simp_all
    with tr_ok_fetching [OF t w] show ?thesis by simp
  next
    case False
    with a have "m v = Some (Sleeping i' k')" by simp
    with t show ?thesis by (rule tr_ok_sleeping)
  qed
qed

text \<open>The request after the 400 ms.\<close>

lemma tr_ok_resend:
  assumes t: "tr_ok tr q m" and w: "m w = Some (Sleeping i k)" and k: "0 < k"
    and h: "hd_ok idx q a m" and u: "un m"
  shows "tr_ok (tr @ [SegmentReq uid i b c]) q (m(w \<mapsto> Fetching i (k - 1)))"
proof (rule tr_okI)
  fix i' show "attempts i' (tr @ [SegmentReq uid i b c]) \<le> 3"
    using tr_ok_le [OF t, of i'] tr_ok_sleeping [OF t w] k by (cases "i' = i") simp_all
next
  fix i' assume i': "i' \<in> set q"
  from h w have "i \<notin> set q" unfolding hd_ok_def by fastforce
  with i' have "i' \<noteq> i" by auto
  with tr_ok_queue [OF t i'] show "attempts i' (tr @ [SegmentReq uid i b c]) = 0" by simp
next
  fix v i' k' assume a: "(m(w \<mapsto> Fetching i (k - 1))) v = Some (Fetching i' k')"
  show "attempts i' (tr @ [SegmentReq uid i b c]) + k' = 3"
  proof (cases "v = w")
    case True
    with a have "i' = i" "k' = k - 1" by simp_all
    with tr_ok_sleeping [OF t w] k show ?thesis by simp
  next
    case False
    with a have mv: "m v = Some (Fetching i' k')" by simp
    have "i' \<noteq> i"
    proof
      assume "i' = i"
      with u mv w have "v = w" unfolding un_def by fastforce
      with False show False by simp
    qed
    with tr_ok_fetching [OF t mv] show ?thesis by simp
  qed
next
  fix v i' k' assume a: "(m(w \<mapsto> Fetching i (k - 1))) v = Some (Sleeping i' k')"
  then have vw: "v \<noteq> w" by (cases "v = w") auto
  with a have mv: "m v = Some (Sleeping i' k')" by simp
  have "i' \<noteq> i"
  proof
    assume "i' = i"
    with u mv w have "v = w" unfolding un_def by fastforce
    with vw show False by simp
  qed
  with tr_ok_sleeping [OF t mv] show "attempts i' (tr @ [SegmentReq uid i b c]) + k' = 3" by simp
qed

lemma rested_Nil [simp]: "rested i []"
  by (simp add: rested_def)

lemma rested_snoc [simp]:
  "rested i (tr @ [e]) =
     (if e = SetTimeout 400 then True else if is_seg i e then False else rested i tr)"
  by (simp add: rested_def)

lemma spaced_Nil [simp]: "spaced i []"
  by (simp add: spaced_def)

lemma spaced_snoc [simp]: "spaced i (tr @ [e]) \<longleftrightarrow> spaced i tr \<and> (is_seg i e \<longrightarrow> rested i tr)"
proof
  assume s: "spaced i (tr @ [e])"
  have "spaced i tr"
    unfolding spaced_def
  proof (intro allI impI)
    fix n assume n: "n < length tr" "is_seg i (tr ! n)"
    with s [unfolded spaced_def, rule_format, of n] show "rested i (take n tr)"
      by (simp add: nth_append)
  qed
  moreover have "is_seg i e \<longrightarrow> rested i tr"
    using s [unfolded spaced_def, rule_format, of "length tr"] by simp
  ultimately show "spaced i tr \<and> (is_seg i e \<longrightarrow> rested i tr)" by simp
next
  assume a: "spaced i tr \<and> (is_seg i e \<longrightarrow> rested i tr)"
  show "spaced i (tr @ [e])"
    unfolding spaced_def
  proof (intro allI impI)
    fix n assume n: "n < length (tr @ [e])" "is_seg i ((tr @ [e]) ! n)"
    show "rested i (take n (tr @ [e]))"
    proof (cases "n < length tr")
      case True
      with n a show ?thesis by (simp add: spaced_def nth_append)
    next
      case False
      with n have "n = length tr" by simp
      with n a show ?thesis by simp
    qed
  qed
qed

lemma rested_fresh: "attempts i tr = 0 \<Longrightarrow> rested i tr"
proof (induction tr rule: rev_induct)
  case Nil
  then show ?case by simp
next
  case (snoc e tr)
  then show ?case by (simp split: if_splits)
qed

text \<open>What a rest means: a timer of 400 ms has been set after the request.\<close>

lemma rested_after:
  "rested i (pre @ e # mid) \<Longrightarrow> is_seg i e \<Longrightarrow> SetTimeout 400 \<in> set mid"
proof (induction mid rule: rev_induct)
  case Nil
  then show ?case
    using rested_snoc [of i pre e] by (auto split: if_splits)
next
  case (snoc x mid)
  have "rested i ((pre @ e # mid) @ [x])" using snoc.prems(1) by simp
  then have "x = SetTimeout 400 \<or> rested i (pre @ e # mid)"
    unfolding rested_snoc by (simp split: if_splits)
  with snoc show ?case by auto
qed

lemma spaced_between:
  assumes s: "spaced i tr" and tr: "tr = pre @ e # mid @ e' # post"
    and e: "is_seg i e" "is_seg i e'"
  shows "SetTimeout 400 \<in> set mid"
proof -
  let ?n = "length (pre @ e # mid)"
  have "?n < length tr" using tr by simp
  moreover have "tr ! ?n = e'" using tr by (simp add: nth_append)
  moreover have "take ?n tr = pre @ e # mid" using tr by simp
  ultimately have "rested i (pre @ e # mid)"
    using s e(2) unfolding spaced_def by metis
  then show ?thesis using e(1) by (rule rested_after)
qed

lemma sp_okI:
  "(\<And>i. spaced i tr) \<Longrightarrow> (\<And>w i t. m w = Some (Sleeping i t) \<Longrightarrow> rested i tr) \<Longrightarrow> sp_ok tr m"
  unfolding sp_ok_def by blast

lemma sp_ok_spaced: "sp_ok tr m \<Longrightarrow> spaced i tr"
  unfolding sp_ok_def by blast

lemma sp_ok_rested: "sp_ok tr m \<Longrightarrow> m w = Some (Sleeping i t) \<Longrightarrow> rested i tr"
  unfolding sp_ok_def by blast

lemma sp_ok_quiet:
  assumes s: "sp_ok tr m" and e: "\<forall>i. \<not> is_seg i e"
  shows "sp_ok (tr @ [e]) m"
proof (rule sp_okI)
  fix i show "spaced i (tr @ [e])" using sp_ok_spaced [OF s] e by simp
next
  fix w i t assume "m w = Some (Sleeping i t)"
  with s have "rested i tr" by (rule sp_ok_rested)
  with e show "rested i (tr @ [e])" by simp
qed

lemma sp_ok_put:
  assumes s: "sp_ok tr (m(w := None))" and y: "\<forall>i t. y \<noteq> Sleeping i t"
  shows "sp_ok tr (m(w \<mapsto> y))"
proof (rule sp_okI)
  fix i show "spaced i tr" using s by (rule sp_ok_spaced)
next
  fix v i t assume a: "(m(w \<mapsto> y)) v = Some (Sleeping i t)"
  with y have "v \<noteq> w" by (cases "v = w") auto
  with a have "(m(w := None)) v = Some (Sleeping i t)" by simp
  with s show "rested i tr" by (rule sp_ok_rested)
qed

lemma sp_ok_drop:
  assumes s: "sp_ok tr m"
  shows "sp_ok tr (m(w := None))"
proof (rule sp_okI)
  fix i show "spaced i tr" using s by (rule sp_ok_spaced)
next
  fix v i t assume a: "(m(w := None)) v = Some (Sleeping i t)"
  then have "m v = Some (Sleeping i t)" by (cases "v = w") simp_all
  with s show "rested i tr" by (rule sp_ok_rested)
qed

lemma sp_ok_take:
  assumes s: "sp_ok tr (m(w := None))" and t: "tr_ok tr (j # q) (m(w := None))"
    and h: "hd_ok idx (j # q) a (m(w := None))"
  shows "sp_ok (tr @ [SegmentReq u j b c]) (m(w \<mapsto> Fetching j 2))"
proof (rule sp_okI)
  have "attempts j tr = 0" using t by (rule tr_ok_queue) simp
  then have "rested j tr" by (rule rested_fresh)
  then show "spaced i (tr @ [SegmentReq u j b c])" for i
    using sp_ok_spaced [OF s, of i] by auto
next
  fix v i k assume a: "(m(w \<mapsto> Fetching j 2)) v = Some (Sleeping i k)"
  then have "v \<noteq> w" by (cases "v = w") auto
  with a have mv: "(m(w := None)) v = Some (Sleeping i k)" by simp
  with h have "i \<notin> set (j # q)" unfolding hd_ok_def by fastforce
  then have "i \<noteq> j" by simp
  with sp_ok_rested [OF s mv] show "rested i (tr @ [SegmentReq u j b c])" by simp
qed

lemma sp_ok_sleep:
  assumes s: "sp_ok tr m"
  shows "sp_ok (tr @ [SetTimeout 400]) (m(w \<mapsto> Sleeping i k))"
proof (rule sp_okI)
  fix i' show "spaced i' (tr @ [SetTimeout 400])" using sp_ok_spaced [OF s] by simp
next
  fix v i' k' show "rested i' (tr @ [SetTimeout 400])" by simp
qed

lemma sp_ok_resend:
  assumes s: "sp_ok tr m" and w: "m w = Some (Sleeping i k)" and u: "un m"
  shows "sp_ok (tr @ [SegmentReq uid i b c]) (m(w \<mapsto> Fetching i (k - 1)))"
proof (rule sp_okI)
  have "rested i tr" using s w by (rule sp_ok_rested)
  then show "spaced i' (tr @ [SegmentReq uid i b c])" for i'
    using sp_ok_spaced [OF s, of i'] by auto
next
  fix v i' k' assume a: "(m(w \<mapsto> Fetching i (k - 1))) v = Some (Sleeping i' k')"
  then have vw: "v \<noteq> w" by (cases "v = w") auto
  with a have mv: "m v = Some (Sleeping i' k')" by simp
  have "i' \<noteq> i"
  proof
    assume "i' = i"
    with u mv w have "v = w" unfolding un_def by fastforce
    with vw show False by simp
  qed
  with sp_ok_rested [OF s mv] show "rested i' (tr @ [SegmentReq uid i b c])" by simp
qed

lemma sg_quiet: "sg cfg tr \<Longrightarrow> \<forall>i. \<not> is_seg i e \<Longrightarrow> sg cfg (tr @ [e])"
  unfolding sg_def by (cases e) auto

lemma sg_send:
  "sg cfg tr \<Longrightarrow> i \<in> set (indices_of cfg) \<Longrightarrow>
   sg cfg (tr @ [SegmentReq u i (fst (chunk_range cfg i)) (snd (chunk_range cfg i))])"
  unfolding sg_def by auto

lemma ct_quiet: "ct cfg tr a u \<Longrightarrow> progress_of e = [] \<Longrightarrow> ct cfg (tr @ [e]) a u"
  unfolding ct_def progress_values_def by simp

lemma ct_ack:
  "ct cfg tr a u \<Longrightarrow>
   ct cfg (tr @ [OnUploadProgress (js_div_num (Suc u) (total_of cfg))]) (a @ [i]) (Suc u)"
  unfolding ct_def progress_values_def by simp

lemma aw_put:
  assumes a: "aw (m(w := None))" and y: "\<forall>i. y \<noteq> Sleeping i 0"
  shows "aw (m(w \<mapsto> y))"
  unfolding aw_def
proof (intro allI)
  fix v i
  show "(m(w \<mapsto> y)) v \<noteq> Some (Sleeping i 0)"
  proof (cases "v = w")
    case True
    with y show ?thesis by simp
  next
    case False
    with a [unfolded aw_def, rule_format, of v i] show ?thesis by simp
  qed
qed

lemma aw_drop:
  assumes a: "aw m"
  shows "aw (m(w := None))"
  unfolding aw_def
proof (intro allI)
  fix v i
  show "(m(w := None)) v \<noteq> Some (Sleeping i 0)"
    using a [unfolded aw_def, rule_format, of v i] by (cases "v = w") simp_all
qed

lemma UP_quiet:
  "UP cfg q a m tr u \<Longrightarrow> \<forall>i. \<not> is_seg i e \<Longrightarrow> progress_of e = [] \<Longrightarrow> UP cfg q a m (tr @ [e]) u"
  unfolding UP_def by (simp add: tr_ok_quiet sp_ok_quiet sg_quiet ct_quiet)

lemma UP_return:
  assumes "UP cfg [] a (m(w := None)) tr u"
  shows "UP cfg [] a (m(w \<mapsto> Returned)) tr u"
proof -
  let ?m = "m(w := None)"
  from assms have l: "ls (set (indices_of cfg)) [] a"
    and h: "hd_ok (set (indices_of cfg)) [] a ?m" and u: "un ?m" and d: "dr [] ?m"
    and c: "cv (set (indices_of cfg)) [] a ?m" and a: "aw ?m" and t: "tr_ok tr [] ?m"
    and sp: "sp_ok tr ?m" and s: "sg cfg tr" and k: "ct cfg tr a u"
    unfolding UP_def by simp_all
  have "hd_ok (set (indices_of cfg)) [] a (m(w \<mapsto> Returned))"
    using h by (rule hd_ok_put) simp_all
  moreover have "un (m(w \<mapsto> Returned))"
    using u by (rule un_put) simp
  moreover have "dr [] (m(w \<mapsto> Returned))"
    using d by (rule dr_put) simp_all
  moreover have "cv (set (indices_of cfg)) [] a (m(w \<mapsto> Returned))"
    using c by (rule cv_return)
  moreover have "aw (m(w \<mapsto> Returned))"
    using a by (rule aw_put) simp
  moreover have "tr_ok tr [] (m(w \<mapsto> Returned))"
    using t by (rule tr_ok_put) simp_all
  moreover have "sp_ok tr (m(w \<mapsto> Returned))"
    using sp by (rule sp_ok_put) simp
  ultimately show ?thesis using l s k unfolding UP_def by simp
qed

lemma UP_take:
  assumes "UP cfg (j # q) a (m(w := None)) tr u"
  shows "UP cfg q a (m(w \<mapsto> Fetching j 2))
           (tr @ [SegmentReq uid j (fst (chunk_range cfg j)) (snd (chunk_range cfg j))]) u"
proof -
  let ?m = "m(w := None)" and ?idx = "set (indices_of cfg)"
  let ?e = "SegmentReq uid j (fst (chunk_range cfg j)) (snd (chunk_range cfg j))"
  from assms have l: "ls ?idx (j # q) a"
    and h: "hd_ok ?idx (j # q) a ?m" and u: "un ?m" and d: "dr (j # q) ?m"
    and c: "cv ?idx (j # q) a ?m" and a: "aw ?m" and t: "tr_ok tr (j # q) ?m"
    and sp: "sp_ok tr ?m" and s: "sg cfg tr" and k: "ct cfg tr a u"
    unfolding UP_def by simp_all
  from l have j: "j \<in> ?idx" "j \<notin> set q" "j \<notin> set a"
    unfolding ls_def by auto
  have "ls ?idx q a" using ls_tl [OF l] by simp
  moreover have "hd_ok ?idx q a (m(w \<mapsto> Fetching j 2))"
    using h by (rule hd_ok_put) (use j in auto)
  moreover have "un (m(w \<mapsto> Fetching j 2))"
  proof (rule un_put [OF u])
    fix i v x assume "holds (Fetching j 2) = Some i" "v \<noteq> w" "m v = Some x"
    then have "i = j" "?m v = Some x" by simp_all
    with h show "holds x \<noteq> Some i" unfolding hd_ok_def by fastforce
  qed
  moreover have "dr q (m(w \<mapsto> Fetching j 2))"
    using d by (rule dr_put) simp_all
  moreover have "cv ?idx q a (m(w \<mapsto> Fetching j 2))"
    using c by (rule cv_take)
  moreover have "aw (m(w \<mapsto> Fetching j 2))"
    using a by (rule aw_put) simp
  moreover have "tr_ok (tr @ [?e]) q (m(w \<mapsto> Fetching j 2))"
    using t l h by (rule tr_ok_take)
  moreover have "sp_ok (tr @ [?e]) (m(w \<mapsto> Fetching j 2))"
    using sp t h by (rule sp_ok_take)
  moreover have "sg cfg (tr @ [?e])"
    using s j(1) by (rule sg_send)
  moreover have "ct cfg (tr @ [?e]) a u"
    using k by (rule ct_quiet) simp
  ultimately show ?thesis unfolding UP_def by simp
qed

lemma UP_pop_throw:
  assumes "UP cfg (j # q) a (m(w := None)) tr u"
  shows "UP cfg q a (m(w \<mapsto> Threw e)) tr u"
proof -
  let ?m = "m(w := None)" and ?idx = "set (indices_of cfg)"
  from assms have l: "ls ?idx (j # q) a"
    and h: "hd_ok ?idx (j # q) a ?m" and u: "un ?m" and d: "dr (j # q) ?m"
    and a: "aw ?m" and t: "tr_ok tr (j # q) ?m"
    and sp: "sp_ok tr ?m" and s: "sg cfg tr" and k: "ct cfg tr a u"
    unfolding UP_def by simp_all
  have "ls ?idx q a" using ls_tl [OF l] by simp
  moreover have "hd_ok ?idx q a (m(w \<mapsto> Threw e))"
    using h by (rule hd_ok_put) auto
  moreover have "un (m(w \<mapsto> Threw e))"
    using u by (rule un_put) simp
  moreover have "dr q (m(w \<mapsto> Threw e))"
    using d by (rule dr_put) simp_all
  moreover have "cv ?idx q a (m(w \<mapsto> Threw e))"
    by (rule cv_throw)
  moreover have "aw (m(w \<mapsto> Threw e))"
    using a by (rule aw_put) simp
  moreover have "tr_ok tr q (m(w \<mapsto> Threw e))"
    using t by (rule tr_ok_put) auto
  moreover have "sp_ok tr (m(w \<mapsto> Threw e))"
    using sp by (rule sp_ok_put) simp
  ultimately show ?thesis using s k unfolding UP_def by simp
qed

lemma UP_throw:
  assumes "UP cfg q a m tr u"
  shows "UP cfg q a (m(w \<mapsto> Threw e)) tr u"
proof -
  let ?idx = "set (indices_of cfg)"
  from assms have l: "ls ?idx q a"
    and h: "hd_ok ?idx q a m" and u: "un m" and d: "dr q m"
    and a: "aw m" and t: "tr_ok tr q m"
    and sp: "sp_ok tr m" and s: "sg cfg tr" and k: "ct cfg tr a u"
    unfolding UP_def by simp_all
  have "hd_ok ?idx q a (m(w \<mapsto> Threw e))"
    using hd_ok_drop [OF h] by (rule hd_ok_put) auto
  moreover have "un (m(w \<mapsto> Threw e))"
    using un_drop [OF u] by (rule un_put) simp
  moreover have "dr q (m(w \<mapsto> Threw e))"
    using dr_drop [OF d] by (rule dr_put) simp_all
  moreover have "cv ?idx q a (m(w \<mapsto> Threw e))"
    by (rule cv_throw)
  moreover have "aw (m(w \<mapsto> Threw e))"
    using aw_drop [OF a] by (rule aw_put) simp
  moreover have "tr_ok tr q (m(w \<mapsto> Threw e))"
    using tr_ok_drop [OF t] by (rule tr_ok_put) auto
  moreover have "sp_ok tr (m(w \<mapsto> Threw e))"
    using sp_ok_drop [OF sp] by (rule sp_ok_put) simp
  ultimately show ?thesis using l s k unfolding UP_def by simp
qed

lemma UP_ack:
  assumes "UP cfg q a m tr u" and w: "m w = Some (Fetching i t)"
  shows "UP cfg q (a @ [i]) (m(w := None))
           (tr @ [OnUploadProgress (js_div_num (Suc u) (total_of cfg))]) (Suc u)"
proof -
  let ?idx = "set (indices_of cfg)"
  let ?e = "OnUploadProgress (js_div_num (Suc u) (total_of cfg))"
  from assms have l: "ls ?idx q a"
    and h: "hd_ok ?idx q a m" and u: "un m" and d: "dr q m"
    and c: "cv ?idx q a m" and a: "aw m" and t: "tr_ok tr q m"
    and sp: "sp_ok tr m" and s: "sg cfg tr" and k: "ct cfg tr a u"
    unfolding UP_def by simp_all
  have hi: "holds (Fetching i t) = Some i" by simp
  from h w hi have i: "i \<in> ?idx" "i \<notin> set q" "i \<notin> set a"
    unfolding hd_ok_def by blast+
  have "ls ?idx q (a @ [i])" using l i by (rule ls_ack)
  moreover have "hd_ok ?idx q (a @ [i]) (m(w := None))"
    using h u w hi by (rule hd_ok_ack)
  moreover have "un (m(w := None))" using u by (rule un_drop)
  moreover have "dr q (m(w := None))" using d by (rule dr_drop)
  moreover have "cv ?idx q (a @ [i]) (m(w := None))" using c w hi by (rule cv_ack)
  moreover have "aw (m(w := None))" using a by (rule aw_drop)
  moreover have "tr_ok (tr @ [?e]) q (m(w := None))"
    using tr_ok_drop [OF t] by (rule tr_ok_quiet) simp
  moreover have "sp_ok (tr @ [?e]) (m(w := None))"
    using sp_ok_drop [OF sp] by (rule sp_ok_quiet) simp
  moreover have "sg cfg (tr @ [?e])" using s by (rule sg_quiet) simp
  moreover have "ct cfg (tr @ [?e]) (a @ [i]) (Suc u)" using k by (rule ct_ack)
  ultimately show ?thesis unfolding UP_def by simp
qed

lemma UP_sleep:
  assumes "UP cfg q a m tr u" and w: "m w = Some (Fetching i t)" and t0: "0 < t"
  shows "UP cfg q a (m(w \<mapsto> Sleeping i t)) (tr @ [SetTimeout 400]) u"
proof -
  let ?idx = "set (indices_of cfg)"
  from assms have l: "ls ?idx q a"
    and h: "hd_ok ?idx q a m" and u: "un m" and d: "dr q m"
    and c: "cv ?idx q a m" and a: "aw m" and t: "tr_ok tr q m"
    and sp: "sp_ok tr m" and s: "sg cfg tr" and k: "ct cfg tr a u"
    unfolding UP_def by simp_all
  have hi: "holds (Fetching i t) = Some i" by simp
  from h w hi have i: "i \<in> ?idx" "i \<notin> set q" "i \<notin> set a"
    unfolding hd_ok_def by blast+
  have "hd_ok ?idx q a (m(w \<mapsto> Sleeping i t))"
    using hd_ok_drop [OF h] by (rule hd_ok_put) (use i in auto)
  moreover have "un (m(w \<mapsto> Sleeping i t))"
  proof (rule un_put [OF un_drop [OF u]])
    fix k v x assume "holds (Sleeping i t) = Some k" "v \<noteq> w" "m v = Some x"
    then have ki: "k = i" and vw: "v \<noteq> w" and mv: "m v = Some x" by simp_all
    show "holds x \<noteq> Some k"
    proof
      assume "holds x = Some k"
      with u mv w hi ki have "v = w" unfolding un_def by blast
      with vw show False by simp
    qed
  qed
  moreover have "dr q (m(w \<mapsto> Sleeping i t))"
    using dr_drop [OF d] by (rule dr_put) simp_all
  moreover have "cv ?idx q a (m(w \<mapsto> Sleeping i t))"
    using c w hi by (rule cv_same) simp
  moreover have "aw (m(w \<mapsto> Sleeping i t))"
    using aw_drop [OF a] by (rule aw_put) (use t0 in simp)
  moreover have "tr_ok (tr @ [SetTimeout 400]) q (m(w \<mapsto> Sleeping i t))"
    using tr_ok_sleep [OF t w] by (rule tr_ok_quiet) simp
  moreover have "sp_ok (tr @ [SetTimeout 400]) (m(w \<mapsto> Sleeping i t))"
    using sp by (rule sp_ok_sleep)
  moreover have "sg cfg (tr @ [SetTimeout 400])" using s by (rule sg_quiet) simp
  moreover have "ct cfg (tr @ [SetTimeout 400]) a u" using k by (rule ct_quiet) simp
  ultimately show ?thesis using l unfolding UP_def by simp
qed

lemma UP_resend:
  assumes "UP cfg q a m tr u" and w: "m w = Some (Sleeping i t)"
  shows "UP cfg q a (m(w \<mapsto> Fetching i (t - 1)))
           (tr @ [SegmentReq uid i (fst (chunk_range cfg i)) (snd (chunk_range cfg i))]) u"
proof -
  let ?idx = "set (indices_of cfg)"
  let ?e = "SegmentReq uid i (fst (chunk_range cfg i)) (snd (chunk_range cfg i))"
  from assms have l: "ls ?idx q a"
    and h: "hd_ok ?idx q a m" and u: "un m" and d: "dr q m"
    and c: "cv ?idx q a m" and a: "aw m" and t: "tr_ok tr q m"
    and sp: "sp_ok tr m" and s: "sg cfg tr" and k: "ct cfg tr a u"
    unfolding UP_def by simp_all
  from a w have t0: "0 < t" unfolding aw_def by (cases t) auto
  have hi: "holds (Sleeping i t) = Some i" by simp
  from h w hi have i: "i \<in> ?idx" "i \<notin> set q" "i \<notin> set a"
    unfolding hd_ok_def by blast+
  have "hd_ok ?idx q a (m(w \<mapsto> Fetching i (t - 1)))"
    using hd_ok_drop [OF h] by (rule hd_ok_put) (use i in auto)
  moreover have "un (m(w \<mapsto> Fetching i (t - 1)))"
  proof (rule un_put [OF un_drop [OF u]])
    fix k v x assume "holds (Fetching i (t - 1)) = Some k" "v \<noteq> w" "m v = Some x"
    then have ki: "k = i" and vw: "v \<noteq> w" and mv: "m v = Some x" by simp_all
    show "holds x \<noteq> Some k"
    proof
      assume "holds x = Some k"
      with u mv w hi ki have "v = w" unfolding un_def by blast
      with vw show False by simp
    qed
  qed
  moreover have "dr q (m(w \<mapsto> Fetching i (t - 1)))"
    using dr_drop [OF d] by (rule dr_put) simp_all
  moreover have "cv ?idx q a (m(w \<mapsto> Fetching i (t - 1)))"
    using c w hi by (rule cv_same) simp
  moreover have "aw (m(w \<mapsto> Fetching i (t - 1)))"
    using aw_drop [OF a] by (rule aw_put) simp
  moreover have "tr_ok (tr @ [?e]) q (m(w \<mapsto> Fetching i (t - 1)))"
    using t w t0 h u by (rule tr_ok_resend)
  moreover have "sp_ok (tr @ [?e]) (m(w \<mapsto> Fetching i (t - 1)))"
    using sp w u by (rule sp_ok_resend)
  moreover have "sg cfg (tr @ [?e])" using s i(1) by (rule sg_send)
  moreover have "ct cfg (tr @ [?e]) a u" using k by (rule ct_quiet) simp
  ultimately show ?thesis using l unfolding UP_def by simp
qed

lemma wmap_nth: "w < length (workers s) \<Longrightarrow> wmap s w = Some (workers s ! w)"
  by (simp add: wmap_def)

lemma wmap_beyond: "\<not> w < length (workers s) \<Longrightarrow> wmap s w = None"
  by (simp add: wmap_def)

lemma wmap_eq: "workers s' = workers s \<Longrightarrow> wmap s' = wmap s"
  by (rule ext) (simp add: wmap_def)

lemma wmap_upd:
  assumes "workers s' = (workers s)[w := y]" "w < length (workers s)"
  shows "wmap s' = (wmap s)(w \<mapsto> y)"
proof
  fix v
  show "wmap s' v = ((wmap s)(w \<mapsto> y)) v"
    using assms by (cases "v = w") (simp_all add: wmap_def)
qed

lemma wmap_app:
  assumes "workers s' = workers s @ [y]"
  shows "(wmap s')(length (workers s) := None) = wmap s"
proof
  fix v
  show "((wmap s')(length (workers s) := None)) v = wmap s v"
    using assms by (cases "v = length (workers s)") (auto simp: wmap_def nth_append)
qed

lemma UpI:
  "UP cfg q a m tr u \<Longrightarrow> queue s = q \<Longrightarrow> acked s = a \<Longrightarrow> wmap s = m \<Longrightarrow> trace s = tr \<Longrightarrow>
   uploaded s = u \<Longrightarrow> Up cfg s"
  by (simp add: Up_def)

lemma Up_worker_return:
  assumes t: "UpT cfg w s" and w: "w < length (workers s)" and q: "queue s = []"
  shows "Up cfg (worker_return w s)"
proof -
  have m: "wmap (worker_return w s) = (wmap s)(w \<mapsto> Returned)"
    by (rule wmap_upd [OF _ w]) simp
  from t q have "UP cfg [] (acked s) ((wmap s)(w := None)) (trace s) (uploaded s)"
    by (simp add: UpT_def)
  then have u: "UP cfg [] (acked s) ((wmap s)(w \<mapsto> Returned)) (trace s) (uploaded s)"
    by (rule UP_return)
  show ?thesis
  proof (cases "phase s = AwaitWorkers \<and> (\<forall>x \<in> set ((workers s)[w := Returned]). x = Returned)")
    case True
    from u have "UP cfg [] (acked s) ((wmap s)(w \<mapsto> Returned))
                   (trace s @ [CompleteReq (uploadId s)]) (uploaded s)"
      by (rule UP_quiet) simp_all
    then show ?thesis
      by (rule UpI) (use True q m in simp_all)
  next
    case False
    from u show ?thesis
      by (rule UpI) (use False q m in auto)
  qed
qed

lemma Up_worker_throw:
  assumes u: "UP cfg q (acked s) ((wmap s)(w \<mapsto> Threw e)) (trace s) (uploaded s)"
    and w: "w < length (workers s)" and q: "queue s = q"
  shows "Up cfg (worker_throw w e s)"
proof -
  have m: "wmap (worker_throw w e s) = (wmap s)(w \<mapsto> Threw e)"
    by (rule wmap_upd [OF _ w]) simp
  show ?thesis
  proof (cases "phase s = AwaitWorkers")
    case True
    from u have "UP cfg q (acked s) ((wmap s)(w \<mapsto> Threw e))
                   (trace s @ [Settled (Rejected e)]) (uploaded s)"
      by (rule UP_quiet) simp_all
    then show ?thesis
      by (rule UpI) (use True q m in simp_all)
  next
    case False
    from u show ?thesis
      by (rule UpI) (use False q m in simp_all)
  qed
qed

lemma Up_worker_loop:
  assumes t: "UpT cfg w s" and w: "w < length (workers s)"
  shows "Up cfg (worker_loop cfg w s)"
proof (cases "queue s")
  case Nil
  with t w show ?thesis by (simp add: worker_loop_Nil Up_worker_return)
next
  case (Cons j q)
  from t Cons have u: "UP cfg (j # q) (acked s) ((wmap s)(w := None)) (trace s) (uploaded s)"
    by (simp add: UpT_def)
  show ?thesis
  proof (cases "aborted s")
    case True
    have "UP cfg q (acked s) ((wmap s)(w \<mapsto> Threw AbortError)) (trace s) (uploaded s)"
      using u by (rule UP_pop_throw)
    moreover have "wmap (s\<lparr>queue := q\<rparr>) = wmap s"
      by (rule wmap_eq) simp
    ultimately have "UP cfg q (acked (s\<lparr>queue := q\<rparr>))
                 ((wmap (s\<lparr>queue := q\<rparr>))(w \<mapsto> Threw AbortError))
                 (trace (s\<lparr>queue := q\<rparr>)) (uploaded (s\<lparr>queue := q\<rparr>))"
      by simp
    then have "Up cfg (worker_throw w AbortError (s\<lparr>queue := q\<rparr>))"
      by (rule Up_worker_throw) (use w in simp_all)
    with True Cons show ?thesis by (simp add: worker_loop_Cons)
  next
    case False
    let ?s = "send_segment cfg w j 2 (s\<lparr>queue := q\<rparr>)"
    have m: "wmap ?s = (wmap s)(w \<mapsto> Fetching j 2)"
      by (rule wmap_upd [OF _ w]) simp
    have "UP cfg q (acked s) ((wmap s)(w \<mapsto> Fetching j 2))
            (trace s @ [SegmentReq (uploadId s) j (fst (chunk_range cfg j)) (snd (chunk_range cfg j))])
            (uploaded s)"
      using u by (rule UP_take)
    then have "Up cfg ?s"
      by (rule UpI) (use m in simp_all)
    with False Cons show ?thesis by (simp add: worker_loop_Cons)
  qed
qed

lemma Up_spawn: "Up cfg s \<Longrightarrow> Up cfg (spawn cfg n s)"
proof (induction n arbitrary: s)
  case 0
  then show ?case by simp
next
  case (Suc n)
  let ?s = "s\<lparr>workers := workers s @ [Returned]\<rparr>"
  have "(wmap ?s)(length (workers s) := None) = wmap s"
    by (rule wmap_app) simp
  with Suc.prems have "UpT cfg (length (workers s)) ?s"
    by (simp add: Up_def UpT_def)
  then have "Up cfg (worker_loop cfg (length (workers s)) ?s)"
    by (rule Up_worker_loop) simp
  then show ?case by (simp add: Suc.IH)
qed

text \<open>Changes that leave the upload's variables alone and add nothing to the trace.\<close>

lemma Up_phase [simp]: "Up cfg (s\<lparr>phase := p\<rparr>) = Up cfg s"
  by (simp add: Up_def wmap_eq [of "s\<lparr>phase := p\<rparr>" s])

lemma Up_aborted [simp]: "Up cfg (s\<lparr>aborted := b\<rparr>) = Up cfg s"
  by (simp add: Up_def wmap_eq [of "s\<lparr>aborted := b\<rparr>" s])

lemma Up_emit: "Up cfg s \<Longrightarrow> \<forall>i. \<not> is_seg i e \<Longrightarrow> progress_of e = [] \<Longrightarrow> Up cfg (emit e s)"
  unfolding Up_def by (simp add: UP_quiet wmap_eq [of "emit e s" s])

lemma Up_settle: "Up cfg s \<Longrightarrow> Up cfg (settle r s)"
  unfolding settle_def by (rule Up_emit) simp_all

lemma Up_request_complete: "Up cfg s \<Longrightarrow> Up cfg (request_complete s)"
  unfolding request_complete_def by (rule Up_emit) simp_all

lemma Up_poll: "Up cfg s \<Longrightarrow> Up cfg (poll s)"
  by (simp add: poll_def Up_settle Up_emit)

lemma Up_abort_worker:
  assumes u: "Up cfg s"
  shows "Up cfg (abort_worker s w)"
proof (cases "w < length (workers s)")
  case True
  show ?thesis
  proof (cases "workers s ! w")
    case (Fetching i t)
    have "UP cfg (queue s) (acked s) ((wmap s)(w \<mapsto> Threw AbortError)) (trace s) (uploaded s)"
      using u [unfolded Up_def] by (rule UP_throw)
    then have "Up cfg (worker_throw w AbortError s)"
      by (rule Up_worker_throw) (use True in simp_all)
    with Fetching show ?thesis by (simp add: abort_worker_def)
  qed (use u in \<open>simp_all add: abort_worker_def\<close>)
next
  case False
  then have "(workers s)[w := Threw AbortError] = workers s"
    by (simp add: list_update_beyond)
  then have m: "wmap (worker_throw w AbortError s) = wmap s"
    by (intro wmap_eq) simp
  have "Up cfg (worker_throw w AbortError s)"
  proof (cases "phase s = AwaitWorkers")
    case True
    from u have "UP cfg (queue s) (acked s) (wmap s) (trace s @ [Settled (Rejected AbortError)])
                   (uploaded s)"
      unfolding Up_def by (rule UP_quiet) simp_all
    then show ?thesis by (rule UpI) (use True m in simp_all)
  next
    case no: False
    from u [unfolded Up_def] show ?thesis by (rule UpI) (use no m in simp_all)
  qed
  with u show ?thesis by (cases "workers s ! w") (simp_all add: abort_worker_def)
qed

lemma Up_cancel: "Up cfg s \<Longrightarrow> Up cfg (cancel s)"
proof -
  have "Up cfg s \<Longrightarrow> Up cfg (foldl abort_worker s ws)" for s ws
    by (induction ws arbitrary: s) (simp_all add: Up_abort_worker)
  then show "Up cfg s \<Longrightarrow> Up cfg (cancel s)"
    by (simp add: cancel_def)
qed

lemma Up_on_segment:
  assumes u: "Up cfg s" and w: "w < length (workers s)"
  shows "Up cfg (on_segment cfg w r s)"
proof (cases "workers s ! w")
  case (Fetching i t)
  with w have mw: "wmap s w = Some (Fetching i t)" by (simp add: wmap_nth)
  have thrown: "Up cfg (worker_throw w e s)" for e
  proof -
    have "UP cfg (queue s) (acked s) ((wmap s)(w \<mapsto> Threw e)) (trace s) (uploaded s)"
      using u [unfolded Up_def] by (rule UP_throw)
    then show ?thesis by (rule Up_worker_throw) (use w in simp_all)
  qed
  have failed: "Up cfg (if aborted s then worker_throw w e s
                        else if t \<le> 0 then worker_throw w e s
                        else emit (SetTimeout 400) (s\<lparr>workers := (workers s)[w := Sleeping i t]\<rparr>))"
    for e
  proof (cases "aborted s \<or> t \<le> 0")
    case True
    with thrown show ?thesis by auto
  next
    case False
    let ?s = "emit (SetTimeout 400) (s\<lparr>workers := (workers s)[w := Sleeping i t]\<rparr>)"
    have m: "wmap ?s = (wmap s)(w \<mapsto> Sleeping i t)"
      by (rule wmap_upd [OF _ w]) simp
    have "UP cfg (queue s) (acked s) ((wmap s)(w \<mapsto> Sleeping i t))
                 (trace s @ [SetTimeout 400]) (uploaded s)"
      using u [unfolded Up_def] mw by (rule UP_sleep) (use False in simp)
    then have "Up cfg ?s" by (rule UpI) (use m in simp_all)
    with False show ?thesis by simp
  qed
  have acked: "Up cfg (worker_loop cfg w
                 (emit (OnUploadProgress (js_div_num (uploaded s + 1) (total_of cfg)))
                    (s\<lparr>uploaded := uploaded s + 1, acked := acked s @ [i]\<rparr>)))"
  proof -
    let ?s = "emit (OnUploadProgress (js_div_num (uploaded s + 1) (total_of cfg)))
                (s\<lparr>uploaded := uploaded s + 1, acked := acked s @ [i]\<rparr>)"
    have m: "wmap ?s = wmap s" by (rule wmap_eq) simp
    have "UP cfg (queue s) (acked s @ [i]) ((wmap s)(w := None))
            (trace s @ [OnUploadProgress (js_div_num (Suc (uploaded s)) (total_of cfg))])
            (Suc (uploaded s))"
      using u [unfolded Up_def] mw by (rule UP_ack)
    with m have "UpT cfg w ?s" unfolding UpT_def by simp
    then show ?thesis by (rule Up_worker_loop) (use w in simp)
  qed
  show ?thesis
  proof (cases "segment_error i r")
    case None
    with Fetching acked show ?thesis by (simp add: on_segment_def)
  next
    case (Some e)
    with Fetching failed [of e] show ?thesis by (simp add: on_segment_def)
  qed
qed (use u in \<open>simp_all add: on_segment_def\<close>)

lemma Up_on_retry_timer:
  assumes u: "Up cfg s" and w: "w < length (workers s)"
  shows "Up cfg (on_retry_timer cfg w s)"
proof (cases "workers s ! w")
  case (Sleeping i t)
  with w have mw: "wmap s w = Some (Sleeping i t)" by (simp add: wmap_nth)
  from u have "aw (wmap s)" by (simp add: Up_def UP_def)
  then have "wmap s w \<noteq> Some (Sleeping i 0)" unfolding aw_def by blast
  with mw have t: "t \<noteq> 0" by auto
  let ?s = "send_segment cfg w i (t - 1) s"
  have m: "wmap ?s = (wmap s)(w \<mapsto> Fetching i (t - 1))"
    by (rule wmap_upd [OF _ w]) simp
  have "UP cfg (queue s) (acked s) ((wmap s)(w \<mapsto> Fetching i (t - 1)))
          (trace s @ [SegmentReq (uploadId s) i (fst (chunk_range cfg i)) (snd (chunk_range cfg i))])
          (uploaded s)"
    using u [unfolded Up_def] mw by (rule UP_resend)
  then have "Up cfg ?s" by (rule UpI) (use m in simp_all)
  with Sleeping t show ?thesis by (simp add: on_retry_timer_def)
qed (use u in \<open>simp_all add: on_retry_timer_def\<close>)

lemma Up_on_complete: "Up cfg s \<Longrightarrow> Up cfg (on_complete r s)"
  by (cases r) (simp_all add: on_complete_def Up_settle Up_poll)

lemma Up_on_status: "Up cfg s \<Longrightarrow> Up cfg (on_status cfg r s)"
  by (cases r) (simp_all add: on_status_def Let_def Up_settle Up_emit split: option.splits)

lemma Up_step:
  assumes u: "Up cfg s" and p: "phase s \<noteq> AwaitInit"
  shows "Up cfg (step cfg s x)"
  using u p
  by (cases x)
     (simp_all add: step_def Up_cancel Up_on_segment Up_on_retry_timer Up_on_complete
        Up_on_status Up_poll)

section \<open>Before the upload\<close>

lemma indices_of_distinct: "distinct (indices_of cfg)"
  by (cases "total_of cfg") (simp_all add: indices_of_def)

lemma attempts_early: "\<forall>e \<in> set tr. is_early e \<Longrightarrow> attempts i tr = 0"
proof (induction tr rule: rev_induct)
  case Nil
  then show ?case by simp
next
  case (snoc e tr)
  then show ?case by (cases e) simp_all
qed

lemma progress_early: "\<forall>e \<in> set tr. is_early e \<Longrightarrow> progress_values tr = []"
proof (induction tr)
  case Nil
  then show ?case by (simp add: progress_values_def)
next
  case (Cons e tr)
  then show ?case by (cases e) (simp_all add: progress_values_def)
qed

lemma spaced_early: "\<forall>e \<in> set tr. is_early e \<Longrightarrow> spaced i tr"
proof (induction tr rule: rev_induct)
  case Nil
  then show ?case by simp
next
  case (snoc e tr)
  then show ?case by (cases e) simp_all
qed

lemma no_seg_early: "\<forall>e \<in> set tr. is_early e \<Longrightarrow> SegmentReq u i a b \<notin> set tr"
  by auto

lemma Up_first:
  assumes p: "pre_upload s"
  shows "Up cfg (s\<lparr>queue := indices_of cfg, uploaded := 0, phase := Running\<rparr>)"
proof -
  let ?s = "s\<lparr>queue := indices_of cfg, uploaded := 0, phase := Running\<rparr>"
  from p have e: "\<forall>e \<in> set (trace s). is_early e" and w: "workers s = []" and a: "acked s = []"
    by (simp_all add: pre_upload_def)
  have m: "wmap ?s = Map.empty"
    by (rule ext) (simp add: wmap_def w)
  have "ls (set (indices_of cfg)) (indices_of cfg) []"
    by (simp add: ls_def indices_of_distinct)
  moreover have "hd_ok (set (indices_of cfg)) (indices_of cfg) [] Map.empty"
    by (simp add: hd_ok_def)
  moreover have "un Map.empty" by (simp add: un_def)
  moreover have "dr (indices_of cfg) Map.empty" by (simp add: dr_def)
  moreover have "cv (set (indices_of cfg)) (indices_of cfg) [] Map.empty"
    by (simp add: cv_def)
  moreover have "aw Map.empty" by (simp add: aw_def)
  moreover have "tr_ok (trace s) (indices_of cfg) Map.empty"
    by (rule tr_okI) (simp_all add: attempts_early [OF e])
  moreover have "sp_ok (trace s) Map.empty"
    by (rule sp_okI) (simp_all add: spaced_early [OF e])
  moreover have "sg cfg (trace s)"
    unfolding sg_def using no_seg_early [OF e] by blast
  moreover have "ct cfg (trace s) [] 0"
    by (simp add: ct_def progress_early [OF e])
  ultimately have "UP cfg (indices_of cfg) [] Map.empty (trace s) 0"
    by (simp add: UP_def)
  then show ?thesis
    by (rule UpI) (simp_all add: m a)
qed

lemma set_upd_sub: "x \<in> set (xs[w := y]) \<Longrightarrow> x = y \<or> x \<in> set xs"
  using set_update_subset_insert [of xs w y] by auto

text \<open>A worker that has not returned: the body still awaits the workers, or has failed.\<close>

lemma Ph_busy:
  assumes "Ph cfg s" "w < length (workers s)" "workers s ! w \<noteq> Returned"
  shows "(phase s = AwaitWorkers \<or> (\<exists>e. phase s = Done (Rejected e)))
         \<and> (\<forall>u. CompleteReq u \<notin> set (trace s))"
proof -
  from assms(2) have "workers s ! w \<in> set (workers s)" by simp
  with assms(3) have n: "\<not> (\<forall>x \<in> set (workers s). x = Returned)" by blast
  with assms(1) have "\<forall>u. CompleteReq u \<notin> set (trace s)"
    unfolding Ph_def by blast
  moreover from n assms(1) have "phase s = AwaitWorkers \<or> (\<exists>e. phase s = Done (Rejected e))"
    unfolding Ph_def
    by (cases "phase s"; simp) (metis outcome.exhaust)
  ultimately show ?thesis by simp
qed

lemma Ph_worker_throw:
  assumes p: "Ph cfg s" and w: "w < length (workers s)" and b: "workers s ! w \<noteq> Returned"
  shows "Ph cfg (worker_throw w e s)"
proof -
  from Ph_busy [OF p w b] have c: "\<forall>u. CompleteReq u \<notin> set (trace s)"
    and ph: "phase s = AwaitWorkers \<or> (\<exists>e. phase s = Done (Rejected e))" by simp_all
  from p have l: "length (workers s) = concurrency cfg" by (simp add: Ph_def)
  from ph c l show ?thesis
    by (auto simp: Ph_def)
qed

lemma Ph_worker_put:
  assumes p: "Ph cfg s" and w: "w < length (workers s)" and b: "workers s ! w \<noteq> Returned"
    and s': "workers s' = (workers s)[w := y]" "phase s' = phase s" "\<forall>e. y \<noteq> Threw e"
      "\<forall>u. CompleteReq u \<in> set (trace s') \<longrightarrow> CompleteReq u \<in> set (trace s)"
  shows "Ph cfg s'"
proof -
  from Ph_busy [OF p w b] have c: "\<forall>u. CompleteReq u \<notin> set (trace s)"
    and ph: "phase s = AwaitWorkers \<or> (\<exists>e. phase s = Done (Rejected e))" by simp_all
  from p have l: "length (workers s) = concurrency cfg"
    and t: "phase s = AwaitWorkers \<longrightarrow> (\<forall>e. Threw e \<notin> set (workers s))" by (simp_all add: Ph_def)
  from ph c l t s' show ?thesis
    by (auto simp: Ph_def dest!: set_upd_sub)
qed

lemma Ph_worker_return:
  assumes p: "Ph cfg s" and w: "w < length (workers s)" and b: "workers s ! w \<noteq> Returned"
  shows "Ph cfg (worker_return w s)"
proof (cases "phase s = AwaitWorkers \<and> (\<forall>x \<in> set ((workers s)[w := Returned]). x = Returned)")
  case True
  from p have l: "length (workers s) = concurrency cfg" by (simp add: Ph_def)
  with True show ?thesis by (simp add: Ph_def)
next
  case False
  from Ph_busy [OF p w b] have c: "\<forall>u. CompleteReq u \<notin> set (trace s)"
    and ph: "phase s = AwaitWorkers \<or> (\<exists>e. phase s = Done (Rejected e))" by simp_all
  from p have l: "length (workers s) = concurrency cfg"
    and t: "phase s = AwaitWorkers \<longrightarrow> (\<forall>e. Threw e \<notin> set (workers s))" by (simp_all add: Ph_def)
  from False ph c l t show ?thesis
    by (auto simp: Ph_def dest!: set_upd_sub)
qed

text \<open>The upload's variables alone change.\<close>

lemma Ph_vars:
  "workers s' = workers s \<Longrightarrow> phase s' = phase s \<Longrightarrow>
   (\<forall>u. CompleteReq u \<in> set (trace s') \<longrightarrow> CompleteReq u \<in> set (trace s)) \<Longrightarrow>
   Ph cfg s \<Longrightarrow> Ph cfg s'"
  unfolding Ph_def by auto

lemma Ph_worker_loop:
  assumes p: "Ph cfg s" and w: "w < length (workers s)" and b: "workers s ! w \<noteq> Returned"
  shows "Ph cfg (worker_loop cfg w s)"
proof (cases "queue s")
  case Nil
  with p w b show ?thesis by (simp add: worker_loop_Nil Ph_worker_return)
next
  case (Cons j q)
  have pq: "Ph cfg (s\<lparr>queue := q\<rparr>)"
    by (rule Ph_vars [OF _ _ _ p]) simp_all
  show ?thesis
  proof (cases "aborted s")
    case True
    have "Ph cfg (worker_throw w AbortError (s\<lparr>queue := q\<rparr>))"
      by (rule Ph_worker_throw [OF pq]) (use w b in simp_all)
    with True Cons show ?thesis by (simp add: worker_loop_Cons)
  next
    case False
    have "Ph cfg (send_segment cfg w j 2 (s\<lparr>queue := q\<rparr>))"
      by (rule Ph_worker_put [OF pq, where w = w and y = "Fetching j 2"]) (use w b in simp_all)
    with False Cons show ?thesis by (simp add: worker_loop_Cons)
  qed
qed

lemma Ph_abort_worker: "Ph cfg s \<Longrightarrow> w < length (workers s) \<Longrightarrow> Ph cfg (abort_worker s w)"
  by (cases "workers s ! w") (simp_all add: abort_worker_def Ph_worker_throw)

lemma abort_worker_length [simp]: "length (workers (abort_worker s w)) = length (workers s)"
  by (cases "workers s ! w") (simp_all add: abort_worker_def)

lemma Ph_foldl_abort:
  "Ph cfg s \<Longrightarrow> \<forall>w \<in> set ws. w < length (workers s) \<Longrightarrow> Ph cfg (foldl abort_worker s ws)"
  by (induction ws arbitrary: s) (simp_all add: Ph_abort_worker)

lemma Ph_cancel: "Ph cfg s \<Longrightarrow> Ph cfg (cancel s)"
  unfolding cancel_def
  by (rule Ph_foldl_abort) (simp_all add: Ph_vars [of "s\<lparr>aborted := True\<rparr>" s])

lemma Ph_on_segment:
  assumes p: "Ph cfg s" and w: "w < length (workers s)"
  shows "Ph cfg (on_segment cfg w r s)"
proof (cases "workers s ! w")
  case (Fetching i t)
  then have b: "workers s ! w \<noteq> Returned" by simp
  have thrown: "Ph cfg (worker_throw w e s)" for e
    using p w b by (rule Ph_worker_throw)
  have slept: "Ph cfg (emit (SetTimeout 400) (s\<lparr>workers := (workers s)[w := Sleeping i t]\<rparr>))"
    by (rule Ph_worker_put [OF p w b, where y = "Sleeping i t"]) simp_all
  have acked: "Ph cfg (worker_loop cfg w (emit (OnUploadProgress v) (s\<lparr>uploaded := u, acked := a\<rparr>)))"
    for v u a
  proof -
    have "Ph cfg (emit (OnUploadProgress v) (s\<lparr>uploaded := u, acked := a\<rparr>))"
      by (rule Ph_vars [OF _ _ _ p]) auto
    then show ?thesis
      by (rule Ph_worker_loop) (use w b in simp_all)
  qed
  show ?thesis
    using Fetching thrown slept acked
    by (cases "segment_error i r") (simp_all add: on_segment_def)
qed (use p in \<open>simp_all add: on_segment_def\<close>)

lemma Ph_on_retry_timer:
  assumes p: "Ph cfg s" and w: "w < length (workers s)"
  shows "Ph cfg (on_retry_timer cfg w s)"
proof (cases "workers s ! w")
  case (Sleeping i t)
  then have b: "workers s ! w \<noteq> Returned" by simp
  have "Ph cfg (worker_loop cfg w s)"
    using p w b by (rule Ph_worker_loop)
  moreover have "Ph cfg (send_segment cfg w i (t - 1) s)"
    by (rule Ph_worker_put [OF p w b, where y = "Fetching i (t - 1)"]) simp_all
  ultimately show ?thesis using Sleeping by (simp add: on_retry_timer_def)
qed (use p in \<open>simp_all add: on_retry_timer_def\<close>)

lemma Ph_rejected:
  "Ph cfg s \<Longrightarrow> phase s \<noteq> AwaitWorkers \<Longrightarrow> Ph cfg (settle (Rejected e) s)"
  unfolding Ph_def by auto

lemma Ph_poll:
  "Ph cfg s \<Longrightarrow> phase s = AwaitComplete \<or> phase s = AwaitPollTimer \<Longrightarrow> Ph cfg (poll s)"
  unfolding Ph_def poll_def by auto

lemma Ph_on_complete: "Ph cfg s \<Longrightarrow> phase s = AwaitComplete \<Longrightarrow> Ph cfg (on_complete r s)"
  by (cases r) (auto simp: on_complete_def Ph_rejected Ph_poll)

lemma Ph_on_status: "Ph cfg s \<Longrightarrow> phase s = AwaitStatus \<Longrightarrow> Ph cfg (on_status cfg r s)"
  unfolding Ph_def
  by (cases r) (auto simp: on_status_def Let_def split: option.splits)

lemma Ph_step: "Ph cfg s \<Longrightarrow> Ph cfg (step cfg s x)"
proof (cases x)
  case (InitResponse r)
  assume "Ph cfg s"
  then have "phase s \<noteq> AwaitInit" by (simp add: Ph_def)
  with \<open>Ph cfg s\<close> InitResponse show ?thesis by (simp add: step_def)
qed (simp_all add: step_def Ph_cancel Ph_on_segment Ph_on_retry_timer Ph_on_complete
       Ph_on_status Ph_poll)

section \<open>Starting the workers\<close>

lemma spawning_refl: "phase s = Running \<Longrightarrow> spawning s s"
  by (simp add: spawning_def)

lemma spawning_worker_loop:
  assumes "spawning s0 s"
  shows "spawning s0 (worker_loop cfg w s)"
proof -
  from assms obtain es where r: "phase s = Running" and es: "trace s = trace s0 @ es"
    "\<forall>e \<in> set es. is_segreq e" by (auto simp: spawning_def)
  show ?thesis
  proof (cases "queue s")
    case Nil
    with r es show ?thesis by (auto simp: spawning_def worker_loop_Nil)
  next
    case (Cons j q)
    show ?thesis
    proof (cases "aborted s")
      case True
      with Cons r es show ?thesis by (auto simp: spawning_def worker_loop_Cons)
    next
      case False
      let ?e = "SegmentReq (uploadId s) j (fst (chunk_range cfg j)) (snd (chunk_range cfg j))"
      have "trace (worker_loop cfg w s) = trace s0 @ (es @ [?e])"
        using False Cons es by (simp add: worker_loop_Cons)
      moreover have "\<forall>e \<in> set (es @ [?e]). is_segreq e" using es by simp
      moreover have "phase (worker_loop cfg w s) = Running"
        using False Cons r by (simp add: worker_loop_Cons)
      ultimately show ?thesis unfolding spawning_def by blast
    qed
  qed
qed

lemma spawning_spawn: "spawning s0 s \<Longrightarrow> spawning s0 (spawn cfg n s)"
proof (induction n arbitrary: s)
  case 0
  then show ?case by simp
next
  case (Suc n)
  have "spawning s0 (s\<lparr>workers := workers s @ [Returned]\<rparr>)"
    using Suc.prems by (simp add: spawning_def)
  then show ?case by (simp add: Suc.IH spawning_worker_loop)
qed

lemma spawn_length: "length (workers (spawn cfg n s)) = length (workers s) + n"
  by (induction n arbitrary: s) simp_all

lemma first_thrown_None: "first_thrown ws = None \<Longrightarrow> Threw e \<notin> set ws"
  by (induction ws rule: first_thrown.induct) auto

lemma is_segreq_early: "\<forall>e \<in> set tr. is_early e \<or> is_segreq e \<Longrightarrow> CompleteReq u \<notin> set tr"
  by auto

text \<open>\<^verbatim>\<open>begin_upload\<close> in a state where nothing has been uploaded.\<close>

lemma begin_upload_cases:
  assumes p: "pre_upload s"
  shows "(pre_upload (begin_upload cfg s) \<and> (\<exists>r. phase (begin_upload cfg s) = Done r))
         \<or> (Up cfg (begin_upload cfg s) \<and> Ph cfg (begin_upload cfg s))"
proof (cases "array_from_length (total_of cfg)")
  case None
  with p show ?thesis by (simp add: begin_upload_def pre_upload_def)
next
  case (Some xs)
  then have xs: "xs = indices_of cfg" by (simp add: indices_of_def)
  let ?s0 = "s\<lparr>queue := indices_of cfg, uploaded := 0, phase := Running\<rparr>"
  let ?s1 = "spawn cfg (concurrency cfg) ?s0"
  have up: "Up cfg ?s1" using Up_first [OF p] by (rule Up_spawn)
  have "spawning ?s0 ?s1" by (rule spawning_spawn) (simp add: spawning_def)
  then obtain es where r: "phase ?s1 = Running" and es: "trace ?s1 = trace s @ es"
    "\<forall>e \<in> set es. is_segreq e" by (auto simp: spawning_def)
  from p have "\<forall>e \<in> set (trace s). is_early e" by (simp add: pre_upload_def)
  with es have "\<forall>e \<in> set (trace ?s1). is_early e \<or> is_segreq e" by auto
  then have nc: "CompleteReq u \<notin> set (trace ?s1)" for u by (rule is_segreq_early)
  from p have len: "length (workers ?s1) = concurrency cfg"
    by (simp add: spawn_length pre_upload_def)
  show ?thesis
  proof (cases "first_thrown (workers ?s1)")
    case (Some e)
    have "Ph cfg (settle (Rejected e) ?s1)"
      using len nc by (simp add: Ph_def)
    moreover have "Up cfg (settle (Rejected e) ?s1)" using up by (rule Up_settle)
    ultimately show ?thesis using Some \<open>array_from_length (total_of cfg) = Some xs\<close> xs
      by (simp add: begin_upload_def Let_def)
  next
    case None
    show ?thesis
    proof (cases "\<forall>x \<in> set (workers ?s1). x = Returned")
      case True
      have "Ph cfg (request_complete ?s1)"
        using len True by (simp add: Ph_def)
      moreover have "Up cfg (request_complete ?s1)" using up by (rule Up_request_complete)
      ultimately show ?thesis
        using None True \<open>array_from_length (total_of cfg) = Some xs\<close> xs
        by (simp add: begin_upload_def Let_def)
    next
      case False
      have "Ph cfg (?s1\<lparr>phase := AwaitWorkers\<rparr>)"
        using len nc first_thrown_None [OF None] by (simp add: Ph_def)
      moreover have "Up cfg (?s1\<lparr>phase := AwaitWorkers\<rparr>)" using up by simp
      ultimately show ?thesis
        using None False \<open>array_from_length (total_of cfg) = Some xs\<close> xs
        by (auto simp add: begin_upload_def Let_def)
    qed
  qed
qed

lemma Reach_begin_upload: "pre_upload s \<Longrightarrow> Reach cfg (begin_upload cfg s)"
  using begin_upload_cases [of s cfg] by (auto simp: Reach_def Early_def)

lemma pre_upload_init: "pre_upload init_state"
  by (simp add: pre_upload_def init_state_def)

lemma Early_settle: "pre_upload s \<Longrightarrow> Early (settle r s)"
  by (simp add: Early_def pre_upload_def)

lemma Reach_start: "Reach cfg (start cfg)"
proof (cases "preflightResult cfg")
  case None
  have "Early (emit (InitReq (total_of cfg)) (init_state\<lparr>phase := AwaitInit\<rparr>))"
    by (simp add: Early_def pre_upload_def init_state_def)
  with None show ?thesis by (simp add: start_def Reach_def)
next
  case (Some pre)
  show ?thesis
  proof (cases pre)
    case (Exists oid url raw)
    with Some show ?thesis
      by (simp add: start_def Reach_def Early_settle pre_upload_init)
  next
    case (NotExists oid uid)
    show ?thesis
    proof (cases "uid = None \<or> uid = Some []")
      case True
      have "Early (emit (InitReq (total_of cfg)) (init_state\<lparr>phase := AwaitInit\<rparr>))"
        by (simp add: Early_def pre_upload_def init_state_def)
      with True Some NotExists show ?thesis by (auto simp: start_def Reach_def)
    next
      case False
      then obtain u where u: "uid = Some u" "u \<noteq> []" by auto
      have "pre_upload (init_state\<lparr>uploadId := u\<rparr>)"
        by (simp add: pre_upload_def init_state_def)
      then have "Reach cfg (begin_upload cfg (init_state\<lparr>uploadId := u\<rparr>))"
        by (rule Reach_begin_upload)
      with u Some NotExists show ?thesis by (simp add: start_def)
    qed
  qed
qed

lemma Early_on_init:
  assumes e: "Early s"
  shows "Reach cfg (on_init cfg r s)"
proof -
  from e have p: "pre_upload s" by (simp add: Early_def)
  have st: "Reach cfg (settle r' s)" for r'
    using Early_settle [OF p] by (simp add: Reach_def)
  have ex: "Reach cfg (settle r' (emit (OnServerStage st' v) s))" for r' st' v
  proof -
    from p have "pre_upload (emit (OnServerStage st' v) s)" by (simp add: pre_upload_def)
    then show ?thesis using Early_settle by (simp add: Reach_def)
  qed
  have bu: "Reach cfg (begin_upload cfg (s\<lparr>uploadId := u\<rparr>))" for u
    by (rule Reach_begin_upload) (use p in \<open>simp add: pre_upload_def\<close>)
  show ?thesis
    by (simp add: on_init_def st ex bu split: response.splits option.splits)
qed

lemma Early_cancel: "Early s \<Longrightarrow> Early (cancel s)"
  by (simp add: Early_def pre_upload_def cancel_def)

lemma Reach_step:
  assumes r: "Reach cfg s"
  shows "Reach cfg (step cfg s x)"
proof (cases "Early s")
  case True
  then have w: "workers s = []" and ph: "phase s = AwaitInit \<or> (\<exists>r. phase s = Done r)"
    by (simp_all add: Early_def pre_upload_def)
  show ?thesis
  proof (cases x)
    case Cancel
    with Early_cancel [OF True] show ?thesis by (simp add: step_def Reach_def)
  next
    case (InitResponse r)
    with Early_on_init [OF True] r show ?thesis by (simp add: step_def)
  qed (use r w ph in \<open>auto simp: step_def\<close>)
next
  case False
  with r have u: "Up cfg s" and p: "Ph cfg s" by (simp_all add: Reach_def)
  from p have "phase s \<noteq> AwaitInit" by (simp add: Ph_def)
  with u have "Up cfg (step cfg s x)" by (rule Up_step)
  moreover from p have "Ph cfg (step cfg s x)" by (rule Ph_step)
  ultimately show ?thesis by (simp add: Reach_def)
qed

lemma Reach_foldl: "Reach cfg s \<Longrightarrow> Reach cfg (foldl (step cfg) s xs)"
  by (induction xs arbitrary: s) (simp_all add: Reach_step)

lemma Reach_run: "Reach cfg (run cfg xs)"
  unfolding run_def using Reach_start by (rule Reach_foldl)

lemma run_append: "run cfg (xs @ ys) = foldl (step cfg) (run cfg xs) ys"
  by (simp add: run_def)

lemma ceiling_quotient_nonneg: "0 \<le> \<lceil>(of_nat S :: real) / of_nat P\<rceil>"
proof -
  have "(0::real) \<le> of_nat S / of_nat P" by simp
  then have "(- 1 :: real) < of_nat S / of_nat P" by linarith
  then show ?thesis by (simp only: zero_le_ceiling)
qed

lemma total_of_ceil:
  assumes "0 < partSize cfg"
  shows "total_of cfg = Fin (of_nat (ceil_div (tsBlob_size cfg) (partSize cfg)))"
proof -
  have "0 \<le> \<lceil>(of_nat (tsBlob_size cfg) :: real) / of_nat (partSize cfg)\<rceil>"
    by (rule ceiling_quotient_nonneg)
  then show ?thesis using assms
    by (simp add: total_of_def js_div_def ceil_div_def)
qed

lemma indices_of_ceil:
  assumes "0 < partSize cfg"
  shows "indices_of cfg = [1 ..< Suc (ceil_div (tsBlob_size cfg) (partSize cfg))]"
  by (simp add: indices_of_def total_of_ceil [OF assms])




lemma ceil_div_zero: "0 < P \<Longrightarrow> ceil_div 0 P = 0"
  by (simp add: ceil_div_def)




lemma Early_no_effects:
  assumes "Early s"
  shows "SegmentReq u i a b \<notin> set (trace s)" "CompleteReq u \<notin> set (trace s)"
    "progress_values (trace s) = []" "acked s = []" "attempts i (trace s) = 0"
    "spaced i (trace s)" "workers s = []"
proof -
  from assms have e: "\<forall>e \<in> set (trace s). is_early e" and a: "acked s = []" "workers s = []"
    by (simp_all add: Early_def pre_upload_def)
  from e show "SegmentReq u i a b \<notin> set (trace s)" by auto
  from e show "CompleteReq u \<notin> set (trace s)" by auto
  from e show "progress_values (trace s) = []" by (rule progress_early)
  from e show "attempts i (trace s) = 0" by (rule attempts_early)
  from e show "spaced i (trace s)" by (rule spaced_early)
  from a show "acked s = []" "workers s = []" by simp_all
qed



section \<open>Progress\<close>

lemma acked_abort_workers: "acked (foldl abort_worker s ws) = acked s"
proof (induction ws arbitrary: s)
  case Nil
  then show ?case by simp
next
  case (Cons w ws)
  have "acked (abort_worker s w) = acked s"
    by (simp add: abort_worker_def split: worker.splits)
  with Cons.IH [of "abort_worker s w"] show ?case by simp
qed

lemma acked_cancel: "acked (cancel s) = acked s"
  by (simp add: cancel_def acked_abort_workers)

lemma acked_spawn: "acked (spawn cfg n s) = acked s"
  by (induction n arbitrary: s) simp_all

lemma acked_begin_upload: "acked (begin_upload cfg s) = acked s"
  by (simp add: begin_upload_def Let_def acked_spawn split: option.splits)

lemma acked_on_init: "acked (on_init cfg r s) = acked s"
  by (simp add: on_init_def acked_begin_upload split: response.splits option.splits)

lemma acked_poll: "acked (poll s) = acked s"
  by (simp add: poll_def)

lemma acked_on_complete: "acked (on_complete r s) = acked s"
  by (simp add: on_complete_def acked_poll split: response.splits)

lemma acked_on_status: "acked (on_status cfg r s) = acked s"
  by (simp add: on_status_def Let_def split: response.splits option.splits)

lemma acked_on_retry_timer: "acked (on_retry_timer cfg w s) = acked s"
  by (simp add: on_retry_timer_def split: worker.splits)

lemma ok_iff: "ok status \<longleftrightarrow> 200 \<le> status \<and> status \<le> 299"
  by (auto simp add: ok_def)

lemma acked_on_segment:
  "w < length (workers s) \<Longrightarrow>
   acked (on_segment cfg w r s) = acked s @ ack_of s (SegmentResponse w r)"
  by (cases r; cases "workers s ! w")
    (simp_all add: on_segment_def ack_of_def segment_error_def ok_iff)

lemma acked_step: "acked (step cfg s x) = acked s @ ack_of s x"
proof (cases x)
  case (SegmentResponse w r)
  show ?thesis
  proof (cases "w < length (workers s)")
    case True
    then show ?thesis by (simp add: SegmentResponse step_def acked_on_segment)
  next
    case False
    then show ?thesis
      by (cases r) (simp_all add: SegmentResponse step_def ack_of_def)
  qed
qed (simp_all add: step_def ack_of_def acked_cancel acked_on_init acked_on_retry_timer
    acked_on_complete acked_on_status acked_poll)

lemma acked_foldl: "acked (foldl (step cfg) s xs) = acked s @ acks cfg s xs"
proof (induction xs arbitrary: s)
  case Nil
  then show ?case by simp
next
  case (Cons x xs)
  show ?case by (simp add: Cons.IH acked_step)
qed

lemma acked_start: "acked (start cfg) = []"
  by (simp add: start_def init_state_def Let_def acked_begin_upload
      split: option.splits preflight_resp.splits)

lemma acked_run: "acked (run cfg xs) = acknowledged cfg xs"
  by (simp add: run_def acknowledged_def acked_foldl acked_start)

lemma acks_append: "acks cfg s (xs @ ys) = acks cfg s xs @ acks cfg (foldl (step cfg) s xs) ys"
  by (induction xs arbitrary: s) simp_all

lemma acknowledged_snoc:
  "acknowledged cfg (xs @ [x]) = acknowledged cfg xs @ ack_of (run cfg xs) x"
  by (simp add: acknowledged_def acks_append run_def)

lemma ack_of_cases: "ack_of s x = [] \<or> (\<exists>i. ack_of s x = [i])"
  by (simp add: ack_of_def split: input.splits response.splits worker.splits)

lemma take_all_iff:
  assumes d: "distinct xs" and s: "set xs \<subseteq> {1 .. N}" and k: "k \<le> length xs"
  shows "set (take k xs) = {1 .. N} \<longleftrightarrow> k = N"
proof -
  have dk: "distinct (take k xs)" using d by simp
  have c: "card (set (take k xs)) = k"
    using distinct_card [OF dk] k by simp
  have sub: "set (take k xs) \<subseteq> {1 .. N}"
    using s set_take_subset [of k xs] by blast
  show ?thesis
  proof
    assume "set (take k xs) = {1 .. N}"
    with c show "k = N" by simp
  next
    assume "k = N"
    with c have "card (set (take k xs)) = card {1 .. N}" by simp
    with sub show "set (take k xs) = {1 .. N}"
      by (intro card_subset_eq) simp_all
  qed
qed

lemma sorted_progress:
  "sorted_wrt js_le (map (\<lambda>k. Fin (real k / real N)) [a ..< b])"
proof -
  have "sorted_wrt (\<lambda>x y. js_le (Fin (real x / real N)) (Fin (real y / real N))) [a ..< b]"
  proof (rule sorted_wrt_mono_rel [of _ "(<)"])
    fix x y :: nat assume "x < y"
    then have "real x / real N \<le> real y / real N"
      by (simp add: divide_right_mono)
    then show "js_le (Fin (real x / real N)) (Fin (real y / real N))"
      by (simp add: js_le_def)
  qed simp
  then show ?thesis by (simp add: sorted_wrt_map)
qed

lemma progress_counts_acked:
  assumes P: "0 < partSize cfg" and N: "1 \<le> ceil_div (tsBlob_size cfg) (partSize cfg)"
  shows "progress_values (trace (run cfg xs)) =
           map (\<lambda>k. Fin (real k / real (ceil_div (tsBlob_size cfg) (partSize cfg))))
             [1 ..< Suc (length (acked (run cfg xs)))]
    \<and> sorted_wrt js_le (progress_values (trace (run cfg xs)))
    \<and> (\<forall>k < length (progress_values (trace (run cfg xs))).
          progress_values (trace (run cfg xs)) ! k = Fin 1 \<longleftrightarrow>
          set (take (Suc k) (acked (run cfg xs))) =
            {1 .. ceil_div (tsBlob_size cfg) (partSize cfg)})
    \<and> distinct (acked (run cfg xs))
    \<and> set (acked (run cfg xs)) \<subseteq> {1 .. ceil_div (tsBlob_size cfg) (partSize cfg)}"
proof -
  let ?s = "run cfg xs" and ?N = "ceil_div (tsBlob_size cfg) (partSize cfg)"
  let ?f = "\<lambda>k. Fin (real k / real ?N)"
  have idx: "set (indices_of cfg) = {1 .. ?N}"
    unfolding indices_of_ceil [OF P] set_upt by (rule atLeastLessThanSuc_atLeastAtMost)
  have f: "js_div_num k (total_of cfg) = ?f k" for k
    using N by (simp add: total_of_ceil [OF P])
  have r: "Reach cfg ?s" by (rule Reach_run)
  have pv: "progress_values (trace ?s) = map ?f [1 ..< Suc (length (acked ?s))]"
    and d: "distinct (acked ?s)" and sub: "set (acked ?s) \<subseteq> {1 .. ?N}"
  proof -
    from r consider "Early ?s" | "Up cfg ?s" unfolding Reach_def by blast
    then have "progress_values (trace ?s) = map ?f [1 ..< Suc (length (acked ?s))]
               \<and> distinct (acked ?s) \<and> set (acked ?s) \<subseteq> {1 .. ?N}"
    proof cases
      case 1
      then show ?thesis by (simp add: Early_no_effects)
    next
      case 2
      then have "ct cfg (trace ?s) (acked ?s) (uploaded ?s)"
        and "ls (set (indices_of cfg)) (queue ?s) (acked ?s)"
        by (simp_all add: Up_def UP_def)
      then show ?thesis
        unfolding ct_def ls_def idx by (simp add: f)
    qed
    then show "progress_values (trace ?s) = map ?f [1 ..< Suc (length (acked ?s))]"
      "distinct (acked ?s)" "set (acked ?s) \<subseteq> {1 .. ?N}" by simp_all
  qed
  have mono: "sorted_wrt js_le (progress_values (trace ?s))"
    unfolding pv by (rule sorted_progress)
  have one: "progress_values (trace ?s) ! k = Fin 1 \<longleftrightarrow> set (take (Suc k) (acked ?s)) = {1 .. ?N}"
    if "k < length (progress_values (trace ?s))" for k
  proof -
    from that have k: "k < length (acked ?s)" by (simp add: pv del: upt_Suc)
    then have "progress_values (trace ?s) ! k = ?f (Suc k)"
      unfolding pv by (simp del: upt_Suc of_nat_Suc)
    moreover have "?f (Suc k) = Fin 1 \<longleftrightarrow> Suc k = ?N"
      using N by (auto simp del: of_nat_Suc)
    moreover have "set (take (Suc k) (acked ?s)) = {1 .. ?N} \<longleftrightarrow> Suc k = ?N"
      using d sub by (rule take_all_iff) (use k in simp)
    ultimately show ?thesis by simp
  qed
  from pv mono one d sub show ?thesis by blast
qed

text \<open>
  Claim C3. For an upload of \<open>N \<ge> 1\<close> segments and every run: an event makes
  \<^verbatim>\<open>onUploadProgress\<close> be called exactly when it is a successful acknowledgment (the
  answer, with \<^verbatim>\<open>res.ok\<close>, to a pending segment request), and the value passed is then the
  number of segments acknowledged so far, this one included, over \<open>N\<close>; so the values
  passed in a run are \<open>1/N, 2/N, ...\<close>, one for each acknowledgment. They are
  non-decreasing. No segment is acknowledged twice, and the value passed after an
  acknowledgment is exactly 1 if and only if the segments acknowledged so far are all of
  \<open>1..N\<close>.
\<close>

theorem C3_progress_is_acknowledged_over_total:
  assumes P: "0 < partSize cfg" and N: "1 \<le> ceil_div (tsBlob_size cfg) (partSize cfg)"
  shows "progress_values (trace (run cfg (xs @ [x]))) =
           progress_values (trace (run cfg xs)) @
           map (\<lambda>i. Fin (real (Suc (length (acknowledged cfg xs))) /
                        real (ceil_div (tsBlob_size cfg) (partSize cfg))))
             (ack_of (run cfg xs) x)
    \<and> progress_values (trace (run cfg xs)) =
           map (\<lambda>k. Fin (real k / real (ceil_div (tsBlob_size cfg) (partSize cfg))))
             [1 ..< Suc (length (acknowledged cfg xs))]
    \<and> sorted_wrt js_le (progress_values (trace (run cfg xs)))
    \<and> distinct (acknowledged cfg xs)
    \<and> set (acknowledged cfg xs) \<subseteq> {1 .. ceil_div (tsBlob_size cfg) (partSize cfg)}
    \<and> (\<forall>k < length (progress_values (trace (run cfg xs))).
          progress_values (trace (run cfg xs)) ! k = Fin 1 \<longleftrightarrow>
          set (take (Suc k) (acknowledged cfg xs)) =
            {1 .. ceil_div (tsBlob_size cfg) (partSize cfg)})"
proof -
  let ?N = "ceil_div (tsBlob_size cfg) (partSize cfg)"
  let ?f = "\<lambda>k. Fin (real k / real ?N)"
  let ?n = "length (acknowledged cfg xs)"
  note a = progress_counts_acked [OF P N, of xs, unfolded acked_run]
  note b = progress_counts_acked [OF P N, of "xs @ [x]", unfolded acked_run, THEN conjunct1]
  have pv: "progress_values (trace (run cfg xs)) = map ?f [1 ..< Suc ?n]"
    by (rule a [THEN conjunct1])
  have step: "progress_values (trace (run cfg (xs @ [x]))) =
      progress_values (trace (run cfg xs)) @ map (\<lambda>i. ?f (Suc ?n)) (ack_of (run cfg xs) x)"
  proof -
    from ack_of_cases [of "run cfg xs" x]
    consider "ack_of (run cfg xs) x = []" | i where "ack_of (run cfg xs) x = [i]" by blast
    then show ?thesis
    proof cases
      case 1
      then show ?thesis by (simp only: b pv acknowledged_snoc) simp
    next
      case 2
      then have "length (acknowledged cfg (xs @ [x])) = Suc ?n"
        by (simp add: acknowledged_snoc)
      then have "progress_values (trace (run cfg (xs @ [x]))) = map ?f [1 ..< Suc (Suc ?n)]"
        by (simp only: b)
      also have "\<dots> = map ?f [1 ..< Suc ?n] @ [?f (Suc ?n)]"
        by (simp del: of_nat_Suc)
      finally show ?thesis by (simp only: pv 2) simp
    qed
  qed
  from step a show ?thesis by blast
qed

lemma ceil_div_example: "ceil_div 20 8 = 3"
  by (simp add: ceil_div_def)

lemmas model_defs =
  run_def start_def step_def init_state_def total_of_def js_div_def emit_def settle_def
  chunk_range_def blob_slice_def send_segment_def worker_throw_def request_complete_def
  worker_return_def worker_loop_def begin_upload_def abort_worker_def cancel_def poll_def
  on_init_def segment_error_def on_segment_def on_retry_timer_def on_complete_def on_status_def
  ok_def absolute_url_def is_http_url_def joinUrl_def strip_trailing_slash_def Let_def
  upt_conv_Cons

lemma spawn_numeral [simp]: "spawn cfg (numeral k) s = spawn cfg (Suc (pred_numeral k)) s"
  by (simp only: numeral_eq_Suc)

lemma example_upload_run:
  "run example_config example_upload =
     \<lparr> uploadId = ''u'', queue = [], uploaded = 3, aborted = False,
       workers = [Returned, Returned], phase = AwaitComplete,
       trace = [InitReq (Fin 3), SegmentReq ''u'' 1 0 8, SegmentReq ''u'' 2 8 16,
                OnUploadProgress (Fin (1 / 3)), SegmentReq ''u'' 3 16 20, SetTimeout 400,
                OnUploadProgress (Fin (2 / 3)), SegmentReq ''u'' 2 8 16,
                OnUploadProgress (Fin 1), CompleteReq ''u''],
       acked = [1, 3, 2] \<rparr>"
  by (simp add: model_defs example_config_def example_upload_def init_ok_def)


lemma example_first_ack_run:
  "run example_config example_first_ack =
     \<lparr> uploadId = ''u'', queue = [], uploaded = 1, aborted = False,
       workers = [Fetching 3 2, Fetching 2 2], phase = AwaitWorkers,
       trace = [InitReq (Fin 3), SegmentReq ''u'' 1 0 8, SegmentReq ''u'' 2 8 16,
                OnUploadProgress (Fin (1 / 3)), SegmentReq ''u'' 3 16 20],
       acked = [1] \<rparr>"
  by (simp add: model_defs example_config_def example_first_ack_def init_ok_def)

theorem C3_progress_is_acknowledged_over_total_witness:
  "0 < partSize example_config
   \<and> 1 \<le> ceil_div (tsBlob_size example_config) (partSize example_config)
   \<and> acknowledged example_config example_upload = [1, 3, 2]
   \<and> progress_values (trace (run example_config example_upload)) = [Fin (1 / 3), Fin (2 / 3), Fin 1]
   \<and> sorted_wrt js_le (progress_values (trace (run example_config example_upload)))
   \<and> progress_values (trace (run example_config example_upload)) ! 2 = Fin 1
   \<and> set (take 3 (acknowledged example_config example_upload)) = {1 .. 3}
   \<and> ack_of (run example_config example_first_ack) (SegmentResponse 1 (Http 500 ())) = []
   \<and> progress_values (trace (run example_config
         (example_first_ack @ [SegmentResponse 1 (Http 500 ())]))) = [Fin (1 / 3)]
   \<and> ack_of (run example_config example_first_ack) (SegmentResponse 1 (Http 200 ())) = [2]
   \<and> progress_values (trace (run example_config
         (example_first_ack @ [SegmentResponse 1 (Http 200 ())]))) = [Fin (1 / 3), Fin (2 / 3)]"
proof -
  have P: "0 < partSize example_config" by (simp add: example_config_def)
  have N: "ceil_div (tsBlob_size example_config) (partSize example_config) = 3"
    by (simp add: example_config_def ceil_div_example)
  then have N1: "1 \<le> ceil_div (tsBlob_size example_config) (partSize example_config)" by simp
  have ak: "acknowledged example_config example_upload = [1, 3, 2]"
    by (simp add: acked_run [symmetric] example_upload_run)
  have ak1: "acknowledged example_config example_first_ack = [1]"
    by (simp add: acked_run [symmetric] example_first_ack_run)
  have pv1: "progress_values (trace (run example_config example_first_ack)) = [Fin (1 / 3)]"
    by (simp add: example_first_ack_run progress_values_def)
  have no: "ack_of (run example_config example_first_ack) (SegmentResponse 1 (Http 500 ())) = []"
    and yes: "ack_of (run example_config example_first_ack) (SegmentResponse 1 (Http 200 ())) = [2]"
    by (simp_all add: example_first_ack_run ack_of_def)
  note c3 = C3_progress_is_acknowledged_over_total [OF P N1, of example_upload]
  have pv: "progress_values (trace (run example_config example_upload)) =
              [Fin (1 / 3), Fin (2 / 3), Fin 1]"
    using c3 [THEN conjunct2, THEN conjunct1]
    by (simp add: ak N upt_conv_Cons)
  have s: "sorted_wrt js_le (progress_values (trace (run example_config example_upload)))"
    by (rule c3 [THEN conjunct2, THEN conjunct2, THEN conjunct1])
  have o: "\<forall>k < length (progress_values (trace (run example_config example_upload))).
          progress_values (trace (run example_config example_upload)) ! k = Fin 1 \<longleftrightarrow>
          set (take (Suc k) (acknowledged example_config example_upload)) =
            {1 .. ceil_div (tsBlob_size example_config) (partSize example_config)}"
    by (rule c3 [THEN conjunct2, THEN conjunct2, THEN conjunct2, THEN conjunct2,
          THEN conjunct2])
  from o [rule_format, of 2] pv N
  have a3: "set (take 3 (acknowledged example_config example_upload)) = {1 .. 3}"
    by (simp add: numeral_3_eq_3)
  have f: "progress_values (trace (run example_config
         (example_first_ack @ [SegmentResponse 1 (Http 500 ())]))) = [Fin (1 / 3)]"
    using C3_progress_is_acknowledged_over_total [OF P N1, of example_first_ack
        "SegmentResponse 1 (Http 500 ())", THEN conjunct1]
    unfolding no pv1 by simp
  have g: "progress_values (trace (run example_config
         (example_first_ack @ [SegmentResponse 1 (Http 200 ())]))) = [Fin (1 / 3), Fin (2 / 3)]"
    using C3_progress_is_acknowledged_over_total [OF P N1, of example_first_ack
        "SegmentResponse 1 (Http 200 ())", THEN conjunct1]
    unfolding yes pv1 ak1 N by simp
  have l: "progress_values (trace (run example_config example_upload)) ! 2 = Fin 1"
    by (simp add: pv)
  from P N1 ak pv s l a3 no f yes g show ?thesis by (intro conjI)
qed

section \<open>A worker that threw stays so\<close>

lemma worker_loop_other: "v \<noteq> w \<Longrightarrow> workers (worker_loop cfg w s) ! v = workers s ! v"
  by (cases "queue s") (simp_all add: worker_loop_Nil worker_loop_Cons)

lemma on_segment_other: "v \<noteq> w \<Longrightarrow> workers (on_segment cfg w r s) ! v = workers s ! v"
  by (simp add: on_segment_def worker_loop_other split: worker.splits option.splits)

lemma on_retry_timer_other: "v \<noteq> w \<Longrightarrow> workers (on_retry_timer cfg w s) ! v = workers s ! v"
  by (simp add: on_retry_timer_def worker_loop_other split: worker.splits)

lemma on_segment_length [simp]: "length (workers (on_segment cfg w r s)) = length (workers s)"
  by (simp add: on_segment_def split: worker.splits option.splits)

lemma on_retry_timer_length [simp]:
  "length (workers (on_retry_timer cfg w s)) = length (workers s)"
  by (simp add: on_retry_timer_def split: worker.splits)

lemma abort_worker_threw:
  "workers s ! v = Threw e \<Longrightarrow> workers (abort_worker s w) ! v = Threw e"
  by (cases "v = w"; cases "workers s ! w") (simp_all add: abort_worker_def)

lemma foldl_abort_threw:
  "workers s ! v = Threw e \<Longrightarrow> workers (foldl abort_worker s ws) ! v = Threw e"
  by (induction ws arbitrary: s) (simp_all add: abort_worker_threw)

lemma foldl_abort_length [simp]:
  "length (workers (foldl abort_worker s ws)) = length (workers s)"
  by (induction ws arbitrary: s) simp_all

lemma poll_workers [simp]: "workers (poll s) = workers s"
  by (simp add: poll_def)

lemma on_complete_workers [simp]: "workers (on_complete r s) = workers s"
  by (simp add: on_complete_def split: response.splits)

lemma on_status_workers [simp]: "workers (on_status cfg r s) = workers s"
  by (simp add: on_status_def Let_def split: response.splits option.splits)

lemma step_threw:
  assumes p: "phase s \<noteq> AwaitInit" and t: "workers s ! v = Threw e"
  shows "workers (step cfg s x) ! v = Threw e \<and> length (workers (step cfg s x)) = length (workers s)"
proof (cases x)
  case Cancel
  with t show ?thesis by (simp add: step_def cancel_def foldl_abort_threw)
next
  case (SegmentResponse w r)
  show ?thesis
  proof (cases "v = w")
    case True
    with t SegmentResponse show ?thesis by (simp add: step_def on_segment_def)
  next
    case False
    with t SegmentResponse show ?thesis by (simp add: step_def on_segment_other)
  qed
next
  case (RetryTimer w)
  show ?thesis
  proof (cases "v = w")
    case True
    with t RetryTimer show ?thesis by (simp add: step_def on_retry_timer_def)
  next
    case False
    with t RetryTimer show ?thesis by (simp add: step_def on_retry_timer_other)
  qed
qed (use p t in \<open>simp_all add: step_def\<close>)

lemma Reach_workers:
  assumes "Reach cfg s" "v < length (workers s)"
  shows "Up cfg s" "Ph cfg s"
  using assms unfolding Reach_def by (auto simp: Early_no_effects(7))

lemma threw_forever:
  assumes r: "Reach cfg s" and v: "v < length (workers s)" and t: "workers s ! v = Threw e"
  shows "CompleteReq u \<notin> set (trace (foldl (step cfg) s ys))"
proof -
  have "Reach cfg (foldl (step cfg) s ys) \<and> v < length (workers (foldl (step cfg) s ys)) \<and>
        workers (foldl (step cfg) s ys) ! v = Threw e"
    using r v t
  proof (induction ys arbitrary: s)
    case Nil
    then show ?case by simp
  next
    case (Cons y ys)
    from Reach_workers(2) [OF Cons.prems(1,2)] have "phase s \<noteq> AwaitInit"
      by (simp add: Ph_def)
    from step_threw [OF this Cons.prems(3), of cfg y] Cons.prems(2)
    have "v < length (workers (step cfg s y))" "workers (step cfg s y) ! v = Threw e"
      by simp_all
    moreover have "Reach cfg (step cfg s y)" using Cons.prems(1) by (rule Reach_step)
    ultimately show ?case using Cons.IH [of "step cfg s y"] by simp
  qed
  then have r': "Reach cfg (foldl (step cfg) s ys)"
    and v': "v < length (workers (foldl (step cfg) s ys))"
    and t': "workers (foldl (step cfg) s ys) ! v = Threw e" by simp_all
  from v' have "workers (foldl (step cfg) s ys) ! v \<in> set (workers (foldl (step cfg) s ys))"
    by simp
  with t' have "\<not> (\<forall>x \<in> set (workers (foldl (step cfg) s ys)). x = Returned)"
    by (metis worker.distinct(11))
  with Reach_workers(2) [OF r' v'] show ?thesis
    unfolding Ph_def by blast
qed

lemma between_retries:
  assumes "Reach cfg s" and "trace s = pre @ e # mid @ e' # post" "is_seg i e" "is_seg i e'"
  shows "SetTimeout 400 \<in> set mid"
proof -
  from assms(1) consider "Early s" | "Up cfg s" unfolding Reach_def by blast
  then have "spaced i (trace s)"
  proof cases
    case 1
    then show ?thesis by (rule Early_no_effects)
  next
    case 2
    then have "sp_ok (trace s) (wmap s)" by (simp add: Up_def UP_def)
    then show ?thesis by (rule sp_ok_spaced)
  qed
  then show ?thesis using assms(2-4) by (rule spaced_between)
qed

lemma attempts_le_3:
  assumes "Reach cfg s"
  shows "attempts i (trace s) \<le> 3"
proof -
  from assms consider "Early s" | "Up cfg s" unfolding Reach_def by blast
  then show ?thesis
  proof cases
    case 1
    then show ?thesis by (simp add: Early_no_effects)
  next
    case 2
    then have "tr_ok (trace s) (queue s) (wmap s)" by (simp add: Up_def UP_def)
    then show ?thesis by (rule tr_ok_le)
  qed
qed

lemma last_attempt_fails:
  assumes r: "Reach cfg s" and w: "w < length (workers s)" and f: "workers s ! w = Fetching i t"
    and a: "attempts i (trace s) = 3" and e: "segment_error i r = Some e"
  shows "workers (step cfg s (SegmentResponse w r)) ! w = Threw e"
    "\<exists>e'. phase (step cfg s (SegmentResponse w r)) = Done (Rejected e')"
    "phase s = AwaitWorkers \<longrightarrow>
       phase (step cfg s (SegmentResponse w r)) = Done (Rejected e) \<and>
       trace (step cfg s (SegmentResponse w r)) = trace s @ [Settled (Rejected e)]"
    "CompleteReq u \<notin> set (trace (foldl (step cfg) (step cfg s (SegmentResponse w r)) ys))"
proof -
  let ?s = "step cfg s (SegmentResponse w r)"
  note up = Reach_workers [OF r w]
  from up(1) have "tr_ok (trace s) (queue s) (wmap s)" by (simp add: Up_def UP_def)
  moreover have "wmap s w = Some (Fetching i t)" using w f by (simp add: wmap_nth)
  ultimately have "attempts i (trace s) + t = 3" by (rule tr_ok_fetching)
  with a have t: "t = 0" by simp
  have s: "?s = worker_throw w e s"
    using w f e t by (simp add: step_def on_segment_def)
  show 1: "workers ?s ! w = Threw e" using w by (simp add: s)
  from f have "workers s ! w \<noteq> Returned" by simp
  from Ph_busy [OF up(2) w this]
  have "phase s = AwaitWorkers \<or> (\<exists>e. phase s = Done (Rejected e))" by simp
  then show "\<exists>e'. phase ?s = Done (Rejected e')" by (auto simp: s)
  show "phase s = AwaitWorkers \<longrightarrow> phase ?s = Done (Rejected e) \<and>
        trace ?s = trace s @ [Settled (Rejected e)]"
    by (simp add: s)
  have "Reach cfg ?s" using r by (rule Reach_step)
  moreover have "w < length (workers ?s)" using w by (simp add: s)
  ultimately show "CompleteReq u \<notin> set (trace (foldl (step cfg) ?s ys))"
    using 1 by (rule threw_forever)
qed

lemma earlier_attempt_fails:
  assumes w: "w < length (workers s)" and f: "workers s ! w = Fetching i t" and t: "0 < t"
    and a: "\<not> aborted s" and e: "segment_error i r = Some e"
  shows "trace (step cfg s (SegmentResponse w r)) = trace s @ [SetTimeout 400]"
    "workers (step cfg s (SegmentResponse w r)) = (workers s)[w := Sleeping i t]"
  using assms by (simp_all add: step_def on_segment_def)

text \<open>
  Claim C4. For every segment index \<open>i\<close> and every run: at most three requests are made for
  it; between two requests for it a timer of 400 ms is set; a failed request that was not
  the third (and was not cancelled) only sets that timer; and when the third request
  fails, the worker throws the error, the returned promise is rejected (with this error,
  unless it was rejected already), and the completion request is never issued, whatever
  happens later.
\<close>

theorem C4_three_attempts_then_fail:
  "attempts i (trace (run cfg xs)) \<le> 3
   \<and> (\<forall>pre e mid e' post.
         trace (run cfg xs) = pre @ e # mid @ e' # post \<and> is_seg i e \<and> is_seg i e' \<longrightarrow>
         SetTimeout 400 \<in> set mid)
   \<and> (\<forall>w t r e.
         w < length (workers (run cfg xs)) \<and> workers (run cfg xs) ! w = Fetching i t \<and>
         0 < t \<and> \<not> aborted (run cfg xs) \<and> segment_error i r = Some e \<longrightarrow>
         trace (step cfg (run cfg xs) (SegmentResponse w r)) =
           trace (run cfg xs) @ [SetTimeout 400] \<and>
         workers (step cfg (run cfg xs) (SegmentResponse w r)) =
           (workers (run cfg xs))[w := Sleeping i t])
   \<and> (\<forall>w t r e.
         w < length (workers (run cfg xs)) \<and> workers (run cfg xs) ! w = Fetching i t \<and>
         attempts i (trace (run cfg xs)) = 3 \<and> segment_error i r = Some e \<longrightarrow>
         workers (step cfg (run cfg xs) (SegmentResponse w r)) ! w = Threw e \<and>
         (\<exists>e'. phase (step cfg (run cfg xs) (SegmentResponse w r)) = Done (Rejected e')) \<and>
         (phase (run cfg xs) = AwaitWorkers \<longrightarrow>
            phase (step cfg (run cfg xs) (SegmentResponse w r)) = Done (Rejected e) \<and>
            trace (step cfg (run cfg xs) (SegmentResponse w r)) =
              trace (run cfg xs) @ [Settled (Rejected e)]) \<and>
         (\<forall>ys u. CompleteReq u \<notin>
            set (trace (foldl (step cfg) (step cfg (run cfg xs) (SegmentResponse w r)) ys))))"
proof -
  have r: "Reach cfg (run cfg xs)" by (rule Reach_run)
  have 1: "attempts i (trace (run cfg xs)) \<le> 3" using r by (rule attempts_le_3)
  have 2: "\<forall>pre e mid e' post.
         trace (run cfg xs) = pre @ e # mid @ e' # post \<and> is_seg i e \<and> is_seg i e' \<longrightarrow>
         SetTimeout 400 \<in> set mid"
    using between_retries [OF r] by blast
  have 3: "\<forall>w t r e.
         w < length (workers (run cfg xs)) \<and> workers (run cfg xs) ! w = Fetching i t \<and>
         0 < t \<and> \<not> aborted (run cfg xs) \<and> segment_error i r = Some e \<longrightarrow>
         trace (step cfg (run cfg xs) (SegmentResponse w r)) =
           trace (run cfg xs) @ [SetTimeout 400] \<and>
         workers (step cfg (run cfg xs) (SegmentResponse w r)) =
           (workers (run cfg xs))[w := Sleeping i t]"
    using earlier_attempt_fails by blast
  have 4: "\<forall>w t r e.
         w < length (workers (run cfg xs)) \<and> workers (run cfg xs) ! w = Fetching i t \<and>
         attempts i (trace (run cfg xs)) = 3 \<and> segment_error i r = Some e \<longrightarrow>
         workers (step cfg (run cfg xs) (SegmentResponse w r)) ! w = Threw e \<and>
         (\<exists>e'. phase (step cfg (run cfg xs) (SegmentResponse w r)) = Done (Rejected e')) \<and>
         (phase (run cfg xs) = AwaitWorkers \<longrightarrow>
            phase (step cfg (run cfg xs) (SegmentResponse w r)) = Done (Rejected e) \<and>
            trace (step cfg (run cfg xs) (SegmentResponse w r)) =
              trace (run cfg xs) @ [Settled (Rejected e)]) \<and>
         (\<forall>ys u. CompleteReq u \<notin>
            set (trace (foldl (step cfg) (step cfg (run cfg xs) (SegmentResponse w r)) ys)))"
  proof (intro allI impI)
    fix w t r' e
    assume a: "w < length (workers (run cfg xs)) \<and> workers (run cfg xs) ! w = Fetching i t \<and>
         attempts i (trace (run cfg xs)) = 3 \<and> segment_error i r' = Some e"
    then have w: "w < length (workers (run cfg xs))" and f: "workers (run cfg xs) ! w = Fetching i t"
      and n: "attempts i (trace (run cfg xs)) = 3" and e: "segment_error i r' = Some e"
      by simp_all
    note l = last_attempt_fails [OF r w f n e]
    from l(1) l(2) l(3) l(4)
    show "workers (step cfg (run cfg xs) (SegmentResponse w r')) ! w = Threw e \<and>
         (\<exists>e'. phase (step cfg (run cfg xs) (SegmentResponse w r')) = Done (Rejected e')) \<and>
         (phase (run cfg xs) = AwaitWorkers \<longrightarrow>
            phase (step cfg (run cfg xs) (SegmentResponse w r')) = Done (Rejected e) \<and>
            trace (step cfg (run cfg xs) (SegmentResponse w r')) =
              trace (run cfg xs) @ [Settled (Rejected e)]) \<and>
         (\<forall>ys u. CompleteReq u \<notin>
            set (trace (foldl (step cfg) (step cfg (run cfg xs) (SegmentResponse w r')) ys)))"
      by (intro conjI allI)
  qed
  from 1 2 3 4 show ?thesis by (intro conjI)
qed

lemma retries_prefix_run:
  "run example_config retries_prefix =
     \<lparr> uploadId = ''u'', queue = [3], uploaded = 0, aborted = False,
       workers = [Fetching 1 0, Fetching 2 2], phase = AwaitWorkers,
       trace = [InitReq (Fin 3), SegmentReq ''u'' 1 0 8, SegmentReq ''u'' 2 8 16,
                SetTimeout 400, SegmentReq ''u'' 1 0 8, SetTimeout 400,
                SegmentReq ''u'' 1 0 8],
       acked = [] \<rparr>"
  by (simp add: model_defs example_config_def retries_prefix_def init_ok_def)

theorem C4_three_attempts_then_fail_witness:
  "attempts 1 (trace (run example_config retries_prefix)) = 3
   \<and> workers (run example_config retries_prefix) ! 0 = Fetching 1 0
   \<and> segment_error 1 (Http 500 ()) = Some (SegmentHttp 1 500)
   \<and> phase (step example_config (run example_config retries_prefix)
        (SegmentResponse 0 (Http 500 ()))) = Done (Rejected (SegmentHttp 1 500))
   \<and> (\<forall>ys u. CompleteReq u \<notin> set (trace (foldl (step example_config)
        (step example_config (run example_config retries_prefix)
           (SegmentResponse 0 (Http 500 ()))) ys)))"
proof -
  let ?s = "run example_config retries_prefix"
  have a: "attempts 1 (trace ?s) = 3"
    by (simp add: retries_prefix_run attempts_def)
  have w: "0 < length (workers ?s)" and f: "workers ?s ! 0 = Fetching 1 0"
    and p: "phase ?s = AwaitWorkers"
    by (simp_all add: retries_prefix_run)
  have e: "segment_error 1 (Http 500 ()) = Some (SegmentHttp 1 500)"
    by (simp add: segment_error_def ok_def)
  note c4 = C4_three_attempts_then_fail [of 1 example_config retries_prefix,
      THEN conjunct2, THEN conjunct2, THEN conjunct2, rule_format,
      of 0 0 "Http 500 ()" "SegmentHttp 1 500"]
  from w f a e have h: "0 < length (workers ?s) \<and> workers ?s ! 0 = Fetching 1 0 \<and>
      attempts 1 (trace ?s) = 3 \<and> segment_error 1 (Http 500 ()) = Some (SegmentHttp 1 500)"
    by simp
  from c4 [OF h] p
  have "phase (step example_config ?s (SegmentResponse 0 (Http 500 ()))) =
          Done (Rejected (SegmentHttp 1 500))"
    and "\<forall>ys u. CompleteReq u \<notin> set (trace (foldl (step example_config)
          (step example_config ?s (SegmentResponse 0 (Http 500 ()))) ys))"
    by simp_all
  with a f e show ?thesis by simp
qed

section \<open>The empty payload\<close>

lemma spawn_empty:
  "queue s = [] \<Longrightarrow> phase s = Running \<Longrightarrow>
   spawn cfg n s = s\<lparr>workers := workers s @ replicate n Returned\<rparr>"
proof (induction n arbitrary: s)
  case 0
  then show ?case by simp
next
  case (Suc n)
  let ?s = "s\<lparr>workers := workers s @ [Returned]\<rparr>"
  have "worker_loop cfg (length (workers s)) ?s = ?s"
    using Suc.prems by (simp add: worker_loop_def worker_return_def)
  moreover have "spawn cfg n ?s = ?s\<lparr>workers := workers ?s @ replicate n Returned\<rparr>"
    by (rule Suc.IH) (use Suc.prems in simp_all)
  ultimately show ?case by (simp add: replicate_app_Cons_same)
qed

lemma first_thrown_replicate: "first_thrown (replicate n Returned) = None"
  by (induction n) simp_all

lemma begin_upload_empty:
  assumes t: "total_of cfg = Fin 0" and w: "workers s = []"
  shows "begin_upload cfg s =
           s\<lparr>queue := [], uploaded := 0, workers := replicate (concurrency cfg) Returned,
             phase := AwaitComplete, trace := trace s @ [CompleteReq (uploadId s)]\<rparr>"
proof -
  let ?s0 = "s\<lparr>queue := [], uploaded := 0, phase := Running\<rparr>"
  have "spawn cfg (concurrency cfg) ?s0 =
          ?s0\<lparr>workers := workers ?s0 @ replicate (concurrency cfg) Returned\<rparr>"
    by (rule spawn_empty) simp_all
  then show ?thesis
    using t w by (simp add: begin_upload_def first_thrown_replicate request_complete_def emit_def)
qed

lemma start_init:
  "preflightResult cfg = None \<or> preflightResult cfg = Some (NotExists oid None) \<Longrightarrow>
   start cfg = emit (InitReq (total_of cfg)) (init_state\<lparr>phase := AwaitInit\<rparr>)"
  by (auto simp: start_def)

lemma start_reuse:
  "preflightResult cfg = Some (NotExists oid (Some uid)) \<Longrightarrow> uid \<noteq> [] \<Longrightarrow>
   start cfg = begin_upload cfg (init_state\<lparr>uploadId := uid\<rparr>)"
  by (simp add: start_def)

lemma start_exists:
  "preflightResult cfg = Some (Exists oid url raw) \<Longrightarrow>
   start cfg =
     settle (Resolved None (if url \<noteq> None \<and> url \<noteq> Some [] then url else raw)) init_state"
  by (simp add: start_def)

lemma no_progress_empty:
  assumes r: "Reach cfg s" and i: "indices_of cfg = []"
  shows "progress_values (trace s) = []" "SegmentReq u i a b \<notin> set (trace s)"
proof -
  from r consider "Early s" | "Up cfg s" unfolding Reach_def by blast
  then have "progress_values (trace s) = [] \<and> SegmentReq u i a b \<notin> set (trace s)"
  proof cases
    case 1
    then show ?thesis by (simp add: Early_no_effects)
  next
    case 2
    then have "ct cfg (trace s) (acked s) (uploaded s)"
      and "ls (set (indices_of cfg)) (queue s) (acked s)" and "sg cfg (trace s)"
      by (simp_all add: Up_def UP_def)
    then show ?thesis
      unfolding ct_def ls_def sg_def i by auto
  qed
  then show "progress_values (trace s) = []" "SegmentReq u i a b \<notin> set (trace s)"
    by simp_all
qed

text \<open>
  Claim C10. For an empty payload (and a part size \<open>P > 0\<close>) the segment count is 0; in
  every run no segment request is made and \<^verbatim>\<open>onUploadProgress\<close> is never called; and the
  completion request is still made, as soon as the upload id is known (from the init
  answer, or from the preflight result), and once it is answered with success the first
  status request follows.
\<close>

theorem C10_empty_payload:
  assumes S: "tsBlob_size cfg = 0" and P: "0 < partSize cfg"
  shows "total_of cfg = Fin 0
    \<and> (\<forall>u i a b. SegmentReq u i a b \<notin> set (trace (run cfg xs)))
    \<and> progress_values (trace (run cfg xs)) = []
    \<and> (\<forall>status j uid status'.
          (preflightResult cfg = None \<or> (\<exists>oid. preflightResult cfg = Some (NotExists oid None))) \<and>
          ok status \<and> \<not> init_exists j \<and> init_uploadId j = Some uid \<and> uid \<noteq> [] \<and> ok status' \<longrightarrow>
          trace (run cfg [InitResponse (Http status (Some j))]) =
            [InitReq (Fin 0), CompleteReq uid] \<and>
          trace (run cfg [InitResponse (Http status (Some j)), CompleteResponse (Http status' ())]) =
            [InitReq (Fin 0), CompleteReq uid, StatusReq uid] \<and>
          phase (run cfg [InitResponse (Http status (Some j)), CompleteResponse (Http status' ())]) =
            AwaitStatus)
    \<and> (\<forall>oid uid status'.
          preflightResult cfg = Some (NotExists oid (Some uid)) \<and> uid \<noteq> [] \<and> ok status' \<longrightarrow>
          trace (run cfg []) = [CompleteReq uid] \<and>
          trace (run cfg [CompleteResponse (Http status' ())]) = [CompleteReq uid, StatusReq uid] \<and>
          phase (run cfg [CompleteResponse (Http status' ())]) = AwaitStatus)"
proof -
  have t: "total_of cfg = Fin 0"
    using total_of_ceil [OF P] S by (simp add: ceil_div_zero [OF P])
  then have i: "indices_of cfg = []" by (simp add: indices_of_def)
  have r: "Reach cfg (run cfg xs)" by (rule Reach_run)
  have 2: "\<forall>u i a b. SegmentReq u i a b \<notin> set (trace (run cfg xs))"
    using no_progress_empty(2) [OF r i] by blast
  have 3: "progress_values (trace (run cfg xs)) = []"
    using r i by (rule no_progress_empty)
  have 4: "\<forall>status j uid status'.
          (preflightResult cfg = None \<or> (\<exists>oid. preflightResult cfg = Some (NotExists oid None))) \<and>
          ok status \<and> \<not> init_exists j \<and> init_uploadId j = Some uid \<and> uid \<noteq> [] \<and> ok status' \<longrightarrow>
          trace (run cfg [InitResponse (Http status (Some j))]) =
            [InitReq (Fin 0), CompleteReq uid] \<and>
          trace (run cfg [InitResponse (Http status (Some j)), CompleteResponse (Http status' ())]) =
            [InitReq (Fin 0), CompleteReq uid, StatusReq uid] \<and>
          phase (run cfg [InitResponse (Http status (Some j)), CompleteResponse (Http status' ())]) =
            AwaitStatus"
  proof (intro allI impI)
    fix status status' :: nat and j :: init_json and uid :: string
    assume a: "(preflightResult cfg = None \<or>
           (\<exists>oid. preflightResult cfg = Some (NotExists oid None))) \<and>
          ok status \<and> \<not> init_exists j \<and> init_uploadId j = Some uid \<and> uid \<noteq> [] \<and> ok status'"
    then obtain oid where "preflightResult cfg = None \<or>
        preflightResult cfg = Some (NotExists oid None)" by blast
    then have st: "start cfg = emit (InitReq (total_of cfg)) (init_state\<lparr>phase := AwaitInit\<rparr>)"
      by (rule start_init)
    from a show "trace (run cfg [InitResponse (Http status (Some j))]) =
            [InitReq (Fin 0), CompleteReq uid] \<and>
          trace (run cfg [InitResponse (Http status (Some j)), CompleteResponse (Http status' ())]) =
            [InitReq (Fin 0), CompleteReq uid, StatusReq uid] \<and>
          phase (run cfg [InitResponse (Http status (Some j)), CompleteResponse (Http status' ())]) =
            AwaitStatus"
      by (simp add: run_def st step_def on_init_def on_complete_def poll_def init_state_def
            begin_upload_empty t)
  qed
  have 5: "\<forall>oid uid status'.
          preflightResult cfg = Some (NotExists oid (Some uid)) \<and> uid \<noteq> [] \<and> ok status' \<longrightarrow>
          trace (run cfg []) = [CompleteReq uid] \<and>
          trace (run cfg [CompleteResponse (Http status' ())]) = [CompleteReq uid, StatusReq uid] \<and>
          phase (run cfg [CompleteResponse (Http status' ())]) = AwaitStatus"
  proof (intro allI impI)
    fix oid uid status'
    assume a: "preflightResult cfg = Some (NotExists oid (Some uid)) \<and> uid \<noteq> [] \<and> ok status'"
    then have st: "start cfg = begin_upload cfg (init_state\<lparr>uploadId := uid\<rparr>)"
      by (simp add: start_reuse)
    from a show "trace (run cfg []) = [CompleteReq uid] \<and>
          trace (run cfg [CompleteResponse (Http status' ())]) = [CompleteReq uid, StatusReq uid] \<and>
          phase (run cfg [CompleteResponse (Http status' ())]) = AwaitStatus"
      by (simp add: run_def st step_def on_complete_def poll_def init_state_def
            begin_upload_empty t)
  qed
  from t 2 3 4 5 show ?thesis by (intro conjI)
qed

theorem C10_empty_payload_witness:
  "tsBlob_size empty_config = 0 \<and> 0 < partSize empty_config
   \<and> total_of empty_config = Fin 0
   \<and> trace (run empty_config [init_ok, CompleteResponse (Http 200 ())]) =
       [InitReq (Fin 0), CompleteReq ''u'', StatusReq ''u'']
   \<and> phase (run empty_config [init_ok, CompleteResponse (Http 200 ())]) = AwaitStatus
   \<and> progress_values (trace (run empty_config [init_ok, CompleteResponse (Http 200 ())])) = []"
proof -
  have S: "tsBlob_size empty_config = 0" and P: "0 < partSize empty_config"
    and n: "preflightResult empty_config = None"
    by (simp_all add: empty_config_def)
  note c = C10_empty_payload [OF S P, of "[init_ok, CompleteResponse (Http 200 ())]"]
  let ?j = "\<lparr> init_uploadId = Some ''u'', init_exists = False, init_downloadUrl = None \<rparr>"
  have h: "(preflightResult empty_config = None \<or>
            (\<exists>oid. preflightResult empty_config = Some (NotExists oid None))) \<and>
          ok 200 \<and> \<not> init_exists ?j \<and> init_uploadId ?j = Some ''u'' \<and> ''u'' \<noteq> [] \<and> ok 200"
    using n by (simp add: ok_def)
  note c4 = c [THEN conjunct2, THEN conjunct2, THEN conjunct2, THEN conjunct1, rule_format,
      of 200 ?j "''u''" 200, OF h]
  from c [THEN conjunct1] c [THEN conjunct2, THEN conjunct2, THEN conjunct1] c4 S P
  show ?thesis by (simp add: init_ok_def)
qed

section \<open>Polling\<close>

lemma poll_events_append: "poll_events (xs @ ys) = poll_events xs @ poll_events ys"
  by (induction xs) simp_all

lemma poll_round:
  assumes "phase s = AwaitStatus" "\<not> aborted s" "\<not> terminal (st_stage b)"
  shows "phase (step cfg (step cfg s (StatusResponse (Http 200 (Some b)))) PollTimer) = AwaitStatus"
    "aborted (step cfg (step cfg s (StatusResponse (Http 200 (Some b)))) PollTimer) = aborted s"
    "uploadId (step cfg (step cfg s (StatusResponse (Http 200 (Some b)))) PollTimer) = uploadId s"
    "trace (step cfg (step cfg s (StatusResponse (Http 200 (Some b)))) PollTimer) =
       trace s @ cycle (uploadId s) b"
  using assms
  by (simp_all add: step_def on_status_def poll_def Let_def terminal_def cycle_def observation_def)

lemma poll_going:
  assumes "phase s = AwaitStatus" "\<not> aborted s" "\<forall>b \<in> set bs. \<not> terminal (st_stage b)"
  shows "phase (foldl (step cfg) s (poll_events bs)) = AwaitStatus \<and>
         aborted (foldl (step cfg) s (poll_events bs)) = aborted s \<and>
         uploadId (foldl (step cfg) s (poll_events bs)) = uploadId s \<and>
         trace (foldl (step cfg) s (poll_events bs)) =
           trace s @ concat (map (cycle (uploadId s)) bs)"
  using assms
proof (induction bs arbitrary: s)
  case Nil
  then show ?case by simp
next
  case (Cons b bs)
  let ?s = "step cfg (step cfg s (StatusResponse (Http 200 (Some b)))) PollTimer"
  from Cons.prems have b: "\<not> terminal (st_stage b)" by simp
  note r = poll_round [OF Cons.prems(1,2) b, of cfg]
  have "phase (foldl (step cfg) ?s (poll_events bs)) = AwaitStatus \<and>
         aborted (foldl (step cfg) ?s (poll_events bs)) = aborted ?s \<and>
         uploadId (foldl (step cfg) ?s (poll_events bs)) = uploadId ?s \<and>
         trace (foldl (step cfg) ?s (poll_events bs)) =
           trace ?s @ concat (map (cycle (uploadId ?s)) bs)"
    by (rule Cons.IH) (use r Cons.prems in simp_all)
  with r show ?case by simp
qed

lemma done_stays:
  "phase s = Done r \<Longrightarrow> foldl (step cfg) s (poll_events bs) = s"
proof (induction bs)
  case Nil
  then show ?case by simp
next
  case (Cons b bs)
  then show ?case by (simp add: step_def)
qed

lemma poll_done:
  assumes "phase s = AwaitStatus" "st_stage d = Some ''DONE''"
  shows "step cfg s (StatusResponse (Http 200 (Some d))) =
           settle (Resolved (Some (uploadId s)) (absolute_url (endpoint cfg) (st_downloadUrl d)))
             (emit (observation d) s)"
  using assms by (simp add: step_def on_status_def Let_def observation_def)


lemma poll_ends:
  assumes s: "phase s = AwaitStatus" "\<not> aborted s" "\<forall>b \<in> set bs. \<not> terminal (st_stage b)"
    and d: "step cfg (foldl (step cfg) s (poll_events bs)) (StatusResponse (Http 200 (Some d))) =
              settle r (emit (observation d) (foldl (step cfg) s (poll_events bs)))"
  shows "phase (foldl (step cfg) s (poll_events (bs @ d # rest))) = Done r \<and>
         trace (foldl (step cfg) s (poll_events (bs @ d # rest))) =
           trace s @ concat (map (cycle (uploadId s)) bs) @ [observation d, Settled r]"
proof -
  let ?s = "foldl (step cfg) s (poll_events bs)"
  let ?t = "settle r (emit (observation d) ?s)"
  have "foldl (step cfg) s (poll_events (bs @ d # rest)) =
          foldl (step cfg) (step cfg ?t PollTimer) (poll_events rest)"
    by (simp add: poll_events_append d)
  also have "step cfg ?t PollTimer = ?t" by (simp add: step_def)
  also have "foldl (step cfg) ?t (poll_events rest) = ?t"
    by (rule done_stays [of _ r]) simp
  finally have "foldl (step cfg) s (poll_events (bs @ d # rest)) = ?t" .
  with poll_going [OF s, of cfg] show ?thesis by simp
qed








section \<open>The task states of the server pipeline\<close>

lemma small_task_config:
  "small_task =
   \<lparr> tsBlob_size = 1000, endpoint = ''http://127.0.0.1:5000'', partSize = 8388608,
     concurrency = 4, preflightResult = None \<rparr>"
  by (simp add: small_task_def pipeline_config_def config_of_def strip_trailing_slash_def)

lemma small_task_total_of: "total_of small_task = Fin 1"
  by (simp add: total_of_def js_div_def small_task_config)

lemma small_task_range: "chunk_range small_task (Suc 0) = (0, 1000)"
  by (simp add: chunk_range_def blob_slice_def small_task_config)

lemma small_task_started:
  "run small_task [init_ok] =
     \<lparr> uploadId = ''u'', queue = [], uploaded = 0, aborted = False,
       workers = [Fetching 1 2, Returned, Returned, Returned], phase = AwaitWorkers,
       trace = [InitReq (Fin 1), SegmentReq ''u'' 1 0 1000], acked = [] \<rparr>"
proof -
  define s0 where "s0 = \<lparr> uploadId = ''u'', queue = [1], uploaded = 0, aborted = False,
       workers = [], phase = Running, trace = [InitReq (Fin 1)], acked = [] \<rparr>"
  define s1 where "s1 = \<lparr> uploadId = ''u'', queue = [], uploaded = 0, aborted = False,
       workers = [Fetching 1 2], phase = Running,
       trace = [InitReq (Fin 1), SegmentReq ''u'' 1 0 1000], acked = [] \<rparr>"
  have c: "concurrency small_task = Suc 3" by (simp add: small_task_config)
  have "worker_loop small_task (length (workers s0)) (s0\<lparr>workers := workers s0 @ [Returned]\<rparr>)
          = s1"
    by (simp add: s0_def s1_def worker_loop_def send_segment_def emit_def small_task_range)
  then have "spawn small_task (Suc 3) s0 = spawn small_task 3 s1"
    by (simp only: spawn.simps)
  also have "\<dots> = s1\<lparr>workers := workers s1 @ replicate 3 Returned\<rparr>"
    by (rule spawn_empty) (simp_all add: s1_def)
  finally have sp: "spawn small_task (concurrency small_task) s0 =
      s1\<lparr>workers := [Fetching 1 2, Returned, Returned, Returned]\<rparr>"
    by (simp add: c s1_def numeral_3_eq_3)
  have "start small_task = emit (InitReq (Fin 1)) (init_state\<lparr>phase := AwaitInit\<rparr>)"
    using start_init [of small_task]
    by (simp add: small_task_config small_task_total_of [unfolded small_task_config])
  then have "run small_task [init_ok] = begin_upload small_task
      (emit (InitReq (Fin 1)) (init_state\<lparr>phase := AwaitInit\<rparr>)\<lparr>uploadId := ''u''\<rparr>)"
    by (simp add: run_def step_def on_init_def init_ok_def ok_def emit_def)
  also have "\<dots> =
      s1\<lparr>workers := [Fetching 1 2, Returned, Returned, Returned], phase := AwaitWorkers\<rparr>"
    using sp
    by (simp add: begin_upload_def small_task_total_of emit_def init_state_def s0_def s1_def)
  finally show ?thesis by (simp add: s1_def)
qed

lemma run_Cons: "run cfg (x # y # ys) = foldl (step cfg) (run cfg [x]) (y # ys)"
  by (simp add: run_def)

lemma small_task_uploaded:
  "run small_task pipeline_upload =
     \<lparr> uploadId = ''u'', queue = [], uploaded = 1, aborted = False,
       workers = [Returned, Returned, Returned, Returned], phase = AwaitStatus,
       trace = [InitReq (Fin 1), SegmentReq ''u'' 1 0 1000, OnUploadProgress (Fin 1),
                CompleteReq ''u'', StatusReq ''u''],
       acked = [1] \<rparr>"
  unfolding pipeline_upload_def run_Cons small_task_started
  by (simp add: step_def on_segment_def segment_error_def ok_def worker_loop_def
      worker_return_def request_complete_def emit_def on_complete_def poll_def
      small_task_total_of)

lemma small_task_cancelled:
  "run small_task cancel_in_backoff =
     \<lparr> uploadId = ''u'', queue = [], uploaded = 0, aborted = True,
       workers = [Sleeping 1 2, Returned, Returned, Returned], phase = AwaitWorkers,
       trace = [InitReq (Fin 1), SegmentReq ''u'' 1 0 1000, SetTimeout 400],
       acked = [] \<rparr>"
  unfolding cancel_in_backoff_def run_Cons small_task_started
  by (simp add: step_def on_segment_def segment_error_def ok_def emit_def cancel_def
      abort_worker_def upt_conv_Cons)

lemma small_task_resent:
  "run small_task (cancel_in_backoff @ [RetryTimer 0]) =
     \<lparr> uploadId = ''u'', queue = [], uploaded = 0, aborted = True,
       workers = [Fetching 1 1, Returned, Returned, Returned], phase = AwaitWorkers,
       trace = [InitReq (Fin 1), SegmentReq ''u'' 1 0 1000, SetTimeout 400,
                SegmentReq ''u'' 1 0 1000],
       acked = [] \<rparr>"
  unfolding run_append small_task_cancelled
  by (simp add: step_def on_retry_timer_def send_segment_def emit_def small_task_range)

lemma pipeline_append:
  "startServerPipeline sz pre (xs @ ys) =
     [SetState (Waiting W_upload None), SetState (Uploading (Fin 0))] @
     concat (map pipeline_ui (trace (foldl (step (pipeline_config sz pre))
       (run (pipeline_config sz pre) xs) ys)))"
  by (simp add: startServerPipeline_def run_append)

lemma states_of_append: "states_of (xs @ ys) = states_of xs @ states_of ys"
  by (simp add: states_of_def)

lemma states_of_cycle_queued:
  "st_stage b = Some ''QUEUED'' \<Longrightarrow>
   states_of (concat (map pipeline_ui (cycle uid b))) =
     [Waiting W_server (Some (Text label_queued))]"
  by (simp add: cycle_def observation_def states_of_def pipeline_onServerStage_def)

lemma states_of_cycle_transcoding:
  "st_stage b = Some ''MERGING'' \<or> st_stage b = Some ''TRANSCODING'' \<Longrightarrow>
   states_of (concat (map pipeline_ui (cycle uid b))) = [Transcoding (Fin (status_progress b))]"
  by (auto simp add: cycle_def observation_def states_of_def pipeline_onServerStage_def)

lemma states_of_done:
  "st_stage d = Some ''DONE'' \<Longrightarrow>
   states_of (concat (map pipeline_ui [observation d, Settled (Resolved uid url)])) =
     [Transcoding (Fin 1), Finished (case url of None \<Rightarrow> [] | Some u \<Rightarrow> u)]"
  by (simp add: observation_def states_of_def pipeline_onServerStage_def)

text \<open>
  Claim C8, as the code has it. Once the upload is complete and the first status request
  is out, the answers \<^verbatim>\<open>QUEUED, MERGING, TRANSCODING(0.3), TRANSCODING(0.9), DONE\<close> take the
  task through six states: the waiting state of the queue, a transcoding state with the
  progress of the \<^verbatim>\<open>MERGING\<close> answer, the transcoding states of 0.3 and 0.9, a transcoding
  state of progress 1 for \<^verbatim>\<open>DONE\<close>, and the finished state with the link of the \<^verbatim>\<open>DONE\<close>
  answer (the empty string when it has none).
\<close>

theorem C8_scripted_stages_give_six_states:
  assumes "phase (run (pipeline_config sz pre) xs) = AwaitStatus"
    and "\<not> aborted (run (pipeline_config sz pre) xs)"
    and "st_stage q = Some ''QUEUED''" and "st_stage m = Some ''MERGING''"
    and "st_stage t1 = Some ''TRANSCODING''" and "st_progress t1 = Some (Fin (3 / 10))"
    and "st_stage t2 = Some ''TRANSCODING''" and "st_progress t2 = Some (Fin (9 / 10))"
    and "st_stage d = Some ''DONE''"
  shows "states_of (startServerPipeline sz pre (xs @ poll_events [q, m, t1, t2, d])) =
           states_of (startServerPipeline sz pre xs) @
           [Waiting W_server (Some (Text label_queued)),
            Transcoding (Fin (status_progress m)),
            Transcoding (Fin (3 / 10)),
            Transcoding (Fin (9 / 10)),
            Transcoding (Fin 1),
            Finished (case absolute_url (endpoint (pipeline_config sz pre)) (st_downloadUrl d) of
                        None \<Rightarrow> [] | Some u \<Rightarrow> u)]"
proof -
  let ?cfg = "pipeline_config sz pre"
  let ?s = "run ?cfg xs"
  let ?bs = "[q, m, t1, t2]"
  let ?r = "Resolved (Some (uploadId ?s)) (absolute_url (endpoint ?cfg) (st_downloadUrl d))"
  have bs: "\<forall>b \<in> set ?bs. \<not> terminal (st_stage b)"
    using assms by (simp add: terminal_def)
  from poll_going [OF assms(1,2) bs, of ?cfg]
  have p: "phase (foldl (step ?cfg) ?s (poll_events ?bs)) = AwaitStatus"
    and u: "uploadId (foldl (step ?cfg) ?s (poll_events ?bs)) = uploadId ?s"
    by simp_all
  have "trace (foldl (step ?cfg) ?s (poll_events (?bs @ d # []))) =
          trace ?s @ concat (map (cycle (uploadId ?s)) ?bs) @ [observation d, Settled ?r]"
    by (rule poll_ends [OF assms(1,2) bs, THEN conjunct2])
      (simp only: poll_done [OF p assms(9)] u)
  then have t: "trace (foldl (step ?cfg) ?s (poll_events [q, m, t1, t2, d])) =
          trace ?s @ cycle (uploadId ?s) q @ cycle (uploadId ?s) m @ cycle (uploadId ?s) t1 @
          cycle (uploadId ?s) t2 @ [observation d, Settled ?r]"
    by simp
  have p1: "status_progress t1 = 3 / 10" and p2: "status_progress t2 = 9 / 10"
    using assms by (simp_all add: status_progress_def)
  have "states_of (startServerPipeline sz pre (xs @ poll_events [q, m, t1, t2, d])) =
          states_of (startServerPipeline sz pre xs) @
          states_of (concat (map pipeline_ui (cycle (uploadId ?s) q))) @
          states_of (concat (map pipeline_ui (cycle (uploadId ?s) m))) @
          states_of (concat (map pipeline_ui (cycle (uploadId ?s) t1))) @
          states_of (concat (map pipeline_ui (cycle (uploadId ?s) t2))) @
          states_of (concat (map pipeline_ui [observation d, Settled ?r]))"
    unfolding pipeline_append t
    by (simp only: startServerPipeline_def map_append concat_append states_of_append append_assoc)
  also have "states_of (concat (map pipeline_ui (cycle (uploadId ?s) q))) =
      [Waiting W_server (Some (Text label_queued))]"
    by (rule states_of_cycle_queued) (rule assms)
  also have "states_of (concat (map pipeline_ui (cycle (uploadId ?s) m))) =
      [Transcoding (Fin (status_progress m))]"
    by (rule states_of_cycle_transcoding) (simp add: assms)
  also have "states_of (concat (map pipeline_ui (cycle (uploadId ?s) t1))) =
      [Transcoding (Fin (3 / 10))]"
    using states_of_cycle_transcoding [of t1] assms(5) p1 by simp
  also have "states_of (concat (map pipeline_ui (cycle (uploadId ?s) t2))) =
      [Transcoding (Fin (9 / 10))]"
    using states_of_cycle_transcoding [of t2] assms(7) p2 by simp
  also have "states_of (concat (map pipeline_ui [observation d, Settled ?r])) =
      [Transcoding (Fin 1),
       Finished (case absolute_url (endpoint ?cfg) (st_downloadUrl d) of
                   None \<Rightarrow> [] | Some u \<Rightarrow> u)]"
    by (rule states_of_done) (rule assms)
  finally show ?thesis by simp
qed

lemma settled_early_stays:
  assumes "phase s = Done r" and "workers s = []"
  shows "phase (foldl (step cfg) s xs) = Done r \<and> workers (foldl (step cfg) s xs) = [] \<and>
         trace (foldl (step cfg) s xs) = trace s"
  using assms
proof (induction xs arbitrary: s)
  case Nil
  then show ?case by simp
next
  case (Cons x xs)
  have "phase (step cfg s x) = Done r \<and> workers (step cfg s x) = [] \<and>
        trace (step cfg s x) = trace s"
    using Cons.prems by (cases x) (simp_all add: step_def cancel_def)
  with Cons.IH [of "step cfg s x"] show ?case by simp
qed

lemma run_exists:
  assumes "preflightResult cfg = Some (Exists oid url raw)"
  shows "trace (run cfg xs) =
           [Settled (Resolved None (if url \<noteq> None \<and> url \<noteq> Some [] then url else raw))]"
proof -
  let ?r = "Resolved None (if url \<noteq> None \<and> url \<noteq> Some [] then url else raw)"
  have s: "start cfg = settle ?r init_state"
    by (rule start_exists [OF assms])
  have "trace (foldl (step cfg) (start cfg) xs) = trace (start cfg)"
    by (rule settled_early_stays [of _ ?r, THEN conjunct2, THEN conjunct2])
      (simp_all add: s init_state_def)
  then show ?thesis by (simp add: run_def s init_state_def)
qed

lemma preflight_exists_effects:
  assumes "preflightIngestion ep r = (effs, Inr (Exists oid url raw))"
  shows "effs = [PreflightReq, OnServerStage (Some ''EXISTS'') 1]"
  using assms
  by (auto simp add: preflightIngestion_def Let_def
      split: response.splits if_splits option.splits)

text \<open>
  Claim C8, as stated, at the scripted answers: the task of 1000 bytes goes through six
  states after its upload, not through the four of the claim.
\<close>

theorem C8_scripted_stages_counterexample:
  "states_of (startServerPipeline 1000 None (pipeline_upload @ poll_events scripted_stages)) =
     [Waiting W_upload None, Uploading (Fin 0), Uploading (Fin 1),
      Waiting W_server (Some (Text label_queued)),
      Transcoding (Fin 0), Transcoding (Fin (3 / 10)), Transcoding (Fin (9 / 10)),
      Transcoding (Fin 1), Finished ''http://127.0.0.1:5000/files/a.mp4'']
   \<and> drop 3 (states_of
        (startServerPipeline 1000 None (pipeline_upload @ poll_events scripted_stages))) \<noteq>
     [Waiting W_server (Some (Text label_queued)),
      Transcoding (Fin (3 / 10)), Transcoding (Fin (9 / 10)),
      Finished ''http://127.0.0.1:5000/files/a.mp4'']"
proof -
  have "states_of (startServerPipeline 1000 None (pipeline_upload @ poll_events scripted_stages)) =
     [Waiting W_upload None, Uploading (Fin 0), Uploading (Fin 1),
      Waiting W_server (Some (Text label_queued)),
      Transcoding (Fin 0), Transcoding (Fin (3 / 10)), Transcoding (Fin (9 / 10)),
      Transcoding (Fin 1), Finished ''http://127.0.0.1:5000/files/a.mp4'']"
    unfolding pipeline_append small_task_def [symmetric] small_task_uploaded
    by (simp add: scripted_stages_def stage_answer_def step_def on_status_def poll_def emit_def
        settle_def status_progress_def states_of_def pipeline_onServerStage_def small_task_config
        absolute_url_def is_http_url_def joinUrl_def strip_trailing_slash_def Let_def)
  then show ?thesis by simp
qed

theorem C8_scripted_stages_give_six_states_witness:
  "states_of (startServerPipeline 1000 None (pipeline_upload @ poll_events scripted_stages)) =
     states_of (startServerPipeline 1000 None pipeline_upload) @
     [Waiting W_server (Some (Text label_queued)),
      Transcoding (Fin 0), Transcoding (Fin (3 / 10)), Transcoding (Fin (9 / 10)),
      Transcoding (Fin 1), Finished ''http://127.0.0.1:5000/files/a.mp4'']"
proof -
  let ?q = "stage_answer ''QUEUED'' None None"
  let ?m = "stage_answer ''MERGING'' None None"
  let ?t1 = "stage_answer ''TRANSCODING'' (Some (Fin (3 / 10))) None"
  let ?t2 = "stage_answer ''TRANSCODING'' (Some (Fin (9 / 10))) None"
  let ?d = "stage_answer ''DONE'' (Some (Fin 1)) (Some ''/files/a.mp4'')"
  have p: "phase (run (pipeline_config 1000 None) pipeline_upload) = AwaitStatus"
    and a: "\<not> aborted (run (pipeline_config 1000 None) pipeline_upload)"
    unfolding small_task_def [symmetric] by (simp_all add: small_task_uploaded)
  have e: "endpoint (pipeline_config 1000 None) = ''http://127.0.0.1:5000''"
    unfolding small_task_def [symmetric] by (simp add: small_task_config)
  have s: "st_stage ?q = Some ''QUEUED''" "st_stage ?m = Some ''MERGING''"
    "st_stage ?t1 = Some ''TRANSCODING''" "st_progress ?t1 = Some (Fin (3 / 10))"
    "st_stage ?t2 = Some ''TRANSCODING''" "st_progress ?t2 = Some (Fin (9 / 10))"
    "st_stage ?d = Some ''DONE''"
    by (simp_all add: stage_answer_def)
  have m: "status_progress ?m = 0" and l: "st_downloadUrl ?d = Some ''/files/a.mp4''"
    by (simp_all add: stage_answer_def status_progress_def)
  have u: "absolute_url ''http://127.0.0.1:5000'' (Some ''/files/a.mp4'') =
      Some ''http://127.0.0.1:5000/files/a.mp4''"
    by (simp add: absolute_url_def is_http_url_def joinUrl_def strip_trailing_slash_def)
  show ?thesis
    using C8_scripted_stages_give_six_states [OF p a s]
    unfolding scripted_stages_def m l e u by simp
qed

text \<open>
  Claim C7 at the answer \<^verbatim>\<open>{stage: "FAILED", message: "boom"}\<close>. The promise of
  \<^verbatim>\<open>startIngestion\<close> rejects with an error that carries the message, and the \<^verbatim>\<open>catch\<close> of
  \<^verbatim>\<open>startServerPipeline\<close> puts its own fixed text into the error state; the loop of
  \<^verbatim>\<open>startInsightFlow\<close>, given the same answer, shows the message of the server.
\<close>

theorem C7_server_message_not_shown:
  "phase (run (pipeline_config 1000 None) (pipeline_upload @ poll_events [failed_boom])) =
     Done (Rejected (ServerStageError (Some ''FAILED'') ''boom''))
   \<and> states_of (startServerPipeline 1000 None (pipeline_upload @ poll_events [failed_boom])) =
     [Waiting W_upload None, Uploading (Fin 0), Uploading (Fin 1),
      Error E_transcode msg_server_failed]
   \<and> msg_server_failed \<noteq> ''boom''
   \<and> states_of (fst (insight_loop ''blob:1''
        [Http 200 (Some \<lparr> ins_stage = Some ''FAILED'', ins_progress = None,
                           ins_message = Some ''boom'' \<rparr>)])) =
     [Error E_transcode ''boom'']"
proof -
  have "phase (run small_task (pipeline_upload @ poll_events [failed_boom])) =
     Done (Rejected (ServerStageError (Some ''FAILED'') ''boom''))"
    unfolding run_append small_task_uploaded
    by (simp add: failed_boom_def step_def on_status_def emit_def settle_def Let_def)
  moreover
  have "states_of (startServerPipeline 1000 None (pipeline_upload @ poll_events [failed_boom])) =
     [Waiting W_upload None, Uploading (Fin 0), Uploading (Fin 1),
      Error E_transcode msg_server_failed]"
    unfolding pipeline_append small_task_def [symmetric] small_task_uploaded
    by (simp add: failed_boom_def step_def on_status_def emit_def settle_def Let_def
        status_progress_def states_of_def pipeline_onServerStage_def)
  moreover have "msg_server_failed \<noteq> ''boom''"
    by (simp add: msg_server_failed_def)
  moreover have "states_of (fst (insight_loop ''blob:1''
        [Http 200 (Some \<lparr> ins_stage = Some ''FAILED'', ins_progress = None,
                           ins_message = Some ''boom'' \<rparr>)])) =
     [Error E_transcode ''boom'']"
    by (simp add: ok_def Let_def insight_stage_def insight_message_def insight_progress_def
        states_of_def)
  ultimately show ?thesis
    unfolding small_task_def by (intro conjI)
qed

text \<open>
  Claim C5 at a cancellation during the wait between two attempts. The only segment of
  the task fails once and \<^verbatim>\<open>cancel()\<close> is called during the 400 ms: the flag is set and
  nothing is in flight. When the timer fires the segment is sent again, after the
  cancellation. If that attempt fails, the promise rejects with the error of the segment,
  not with \<^verbatim>\<open>AbortError\<close>, and the task shows the error state of a failed transcoding; if
  it succeeds, the completion request is sent as well before the flag is looked at.
\<close>

theorem C5_cancel_during_backoff:
  "aborted (run (pipeline_config 1000 None) cancel_in_backoff)
   \<and> trace (run (pipeline_config 1000 None) cancel_in_backoff) =
       [InitReq (Fin 1), SegmentReq ''u'' 1 0 1000, SetTimeout 400]
   \<and> trace (run (pipeline_config 1000 None) (cancel_in_backoff @ [RetryTimer 0])) =
       [InitReq (Fin 1), SegmentReq ''u'' 1 0 1000, SetTimeout 400, SegmentReq ''u'' 1 0 1000]
   \<and> phase (run (pipeline_config 1000 None)
        ((cancel_in_backoff @ [RetryTimer 0]) @ [SegmentResponse 0 (Http 500 ())])) =
       Done (Rejected (SegmentHttp 1 500))
   \<and> states_of (startServerPipeline 1000 None
        ((cancel_in_backoff @ [RetryTimer 0]) @ [SegmentResponse 0 (Http 500 ())])) =
       [Waiting W_upload None, Uploading (Fin 0), Error E_transcode msg_server_failed]
   \<and> trace (run (pipeline_config 1000 None)
        ((cancel_in_backoff @ [RetryTimer 0]) @ [SegmentResponse 0 (Http 200 ())])) =
       [InitReq (Fin 1), SegmentReq ''u'' 1 0 1000, SetTimeout 400, SegmentReq ''u'' 1 0 1000,
        OnUploadProgress (Fin 1), CompleteReq ''u'']"
proof -
  have a: "aborted (run small_task cancel_in_backoff)"
    and b: "trace (run small_task cancel_in_backoff) =
       [InitReq (Fin 1), SegmentReq ''u'' 1 0 1000, SetTimeout 400]"
    by (simp_all add: small_task_cancelled)
  have c: "trace (run small_task (cancel_in_backoff @ [RetryTimer 0])) =
       [InitReq (Fin 1), SegmentReq ''u'' 1 0 1000, SetTimeout 400, SegmentReq ''u'' 1 0 1000]"
    by (simp add: small_task_resent)
  have d: "run small_task ((cancel_in_backoff @ [RetryTimer 0]) @
        [SegmentResponse 0 (Http 500 ())]) =
     \<lparr> uploadId = ''u'', queue = [], uploaded = 0, aborted = True,
       workers = [Threw (SegmentHttp 1 500), Returned, Returned, Returned],
       phase = Done (Rejected (SegmentHttp 1 500)),
       trace = [InitReq (Fin 1), SegmentReq ''u'' 1 0 1000, SetTimeout 400,
                SegmentReq ''u'' 1 0 1000, Settled (Rejected (SegmentHttp 1 500))],
       acked = [] \<rparr>"
    unfolding run_append [of _ "cancel_in_backoff @ [RetryTimer 0]"] small_task_resent
    by (simp add: step_def on_segment_def segment_error_def ok_def worker_throw_def settle_def
        emit_def)
  have e: "states_of (startServerPipeline 1000 None
        ((cancel_in_backoff @ [RetryTimer 0]) @ [SegmentResponse 0 (Http 500 ())])) =
       [Waiting W_upload None, Uploading (Fin 0), Error E_transcode msg_server_failed]"
    unfolding startServerPipeline_def small_task_def [symmetric] d
    by (simp add: states_of_def)
  have f: "trace (run small_task ((cancel_in_backoff @ [RetryTimer 0]) @
        [SegmentResponse 0 (Http 200 ())])) =
       [InitReq (Fin 1), SegmentReq ''u'' 1 0 1000, SetTimeout 400, SegmentReq ''u'' 1 0 1000,
        OnUploadProgress (Fin 1), CompleteReq ''u'']"
    unfolding run_append [of _ "cancel_in_backoff @ [RetryTimer 0]"] small_task_resent
    by (simp add: step_def on_segment_def segment_error_def ok_def worker_loop_def
        worker_return_def request_complete_def emit_def small_task_total_of)
  from a b c d e f show ?thesis
    unfolding small_task_def by simp
qed

text \<open>
  Claim C2, as stated, at a preflight answer \<^verbatim>\<open>{exists: true, objectId: "o"}\<close> without a
  link: \<^verbatim>\<open>run\<close> throws at \<^verbatim>\<open>if (!link)\<close>, and the last state of the task is the waiting state
  of the check, not the finished state.
\<close>

theorem C2_exists_without_link_counterexample:
  "run_preflight (Http 200 (Some (exists_answer None None))) =
     ([SetState (Waiting W_check None), StageChange (Some ''EXISTS''),
       SetState (Waiting W_check (Some (Text label_exists)))], RunThrew)
   \<and> states_of (fst (run_preflight (Http 200 (Some (exists_answer None None))))) =
     [Waiting W_check None, Waiting W_check (Some (Text label_exists))]"
  by (simp add: run_preflight_def preflightIngestion_def exists_answer_def ok_def Let_def
      preflight_url_def preflight_onServerStage_def strip_trailing_slash_def states_of_def)

text \<open>
  Claim C2, as the code has it. With a preflight result that says the content exists,
  \<^verbatim>\<open>startIngestion\<close> sends no segment and no completion request, whatever happens next: it
  resolves at once with the link of the result. And when the result of the preflight
  carries a link (\<^verbatim>\<open>downloadUrl\<close>, or \<^verbatim>\<open>rawUrl\<close> when that is absent) that is not empty, \<^verbatim>\<open>run\<close>
  goes from the waiting state of the check to the finished state with that link and
  returns, without a download or an upload.
\<close>

theorem C2_existing_content_skips_upload:
  "(preflightResult cfg = Some (Exists oid url raw) \<longrightarrow>
      (\<forall>u i a b. SegmentReq u i a b \<notin> set (trace (run cfg xs))) \<and>
      (\<forall>u. CompleteReq u \<notin> set (trace (run cfg xs))) \<and>
      trace (run cfg xs) =
        [Settled (Resolved None (if url \<noteq> None \<and> url \<noteq> Some [] then url else raw))]) \<and>
   (preflightIngestion (Some ''http://127.0.0.1:5000'') r = (effs, Inr (Exists oid url raw)) \<and>
    (url = Some link \<or> url = None \<and> raw = Some link) \<and> link \<noteq> [] \<longrightarrow>
      states_of (fst (run_preflight r)) =
        [Waiting W_check None, Waiting W_check (Some (Text label_exists)), Finished link] \<and>
      snd (run_preflight r) = RunReturned)"
proof (intro conjI impI)
  assume "preflightResult cfg = Some (Exists oid url raw)"
  then have t: "trace (run cfg xs) =
      [Settled (Resolved None (if url \<noteq> None \<and> url \<noteq> Some [] then url else raw))]"
    by (rule run_exists)
  show "\<forall>u i a b. SegmentReq u i a b \<notin> set (trace (run cfg xs))"
    unfolding t by simp
  show "\<forall>u. CompleteReq u \<notin> set (trace (run cfg xs))"
    unfolding t by simp
  show "trace (run cfg xs) =
      [Settled (Resolved None (if url \<noteq> None \<and> url \<noteq> Some [] then url else raw))]"
    by (rule t)
next
  assume a: "preflightIngestion (Some ''http://127.0.0.1:5000'') r =
      (effs, Inr (Exists oid url raw)) \<and>
    (url = Some link \<or> url = None \<and> raw = Some link) \<and> link \<noteq> []"
  then have p: "preflightIngestion (Some ''http://127.0.0.1:5000'') r =
      ([PreflightReq, OnServerStage (Some ''EXISTS'') 1], Inr (Exists oid url raw))"
    using preflight_exists_effects [of "Some ''http://127.0.0.1:5000''" r effs oid url raw]
    by simp
  from a have l: "(case url of Some u \<Rightarrow> u
       | None \<Rightarrow> (case raw of Some v \<Rightarrow> v | None \<Rightarrow> [])) = link"
    by auto
  from a have n: "link \<noteq> []" by simp
  have "run_preflight r =
      ([SetState (Waiting W_check None), StageChange (Some ''EXISTS''),
        SetState (Waiting W_check (Some (Text label_exists))), SetState (Finished link)],
       RunReturned)"
    by (simp add: run_preflight_def p l n preflight_onServerStage_def)
  then show "states_of (fst (run_preflight r)) =
        [Waiting W_check None, Waiting W_check (Some (Text label_exists)), Finished link]"
    and "snd (run_preflight r) = RunReturned"
    by (simp_all add: states_of_def)
qed

theorem C2_existing_content_skips_upload_witness:
  "trace (run (pipeline_config 1000 (Some (Exists ''o'' (Some ''http://h/a.mp4'') None)))
      [init_ok, Cancel, PollTimer]) =
     [Settled (Resolved None (Some ''http://h/a.mp4''))]
   \<and> states_of (fst (run_preflight (Http 200 (Some (exists_answer (Some ''/a.mp4'') None))))) =
     [Waiting W_check None, Waiting W_check (Some (Text label_exists)),
      Finished ''http://127.0.0.1:5000/a.mp4'']
   \<and> snd (run_preflight (Http 200 (Some (exists_answer (Some ''/a.mp4'') None)))) = RunReturned"
proof -
  let ?cfg = "pipeline_config 1000 (Some (Exists ''o'' (Some ''http://h/a.mp4'') None))"
  let ?r = "Http 200 (Some (exists_answer (Some ''/a.mp4'') None))"
  note c = C2_existing_content_skips_upload [of ?cfg "''o''" "Some ''http://h/a.mp4''" None
      "[init_ok, Cancel, PollTimer]" ?r "[PreflightReq, OnServerStage (Some ''EXISTS'') 1]"
      "''http://127.0.0.1:5000/a.mp4''"]
  have p: "preflightResult ?cfg = Some (Exists ''o'' (Some ''http://h/a.mp4'') None)"
    by (simp add: pipeline_config_def config_of_def)
  have "trace (run ?cfg [init_ok, Cancel, PollTimer]) =
     [Settled (Resolved None (Some ''http://h/a.mp4''))]"
    using c [THEN conjunct1, rule_format, OF p] by simp
  moreover
  note d = C2_existing_content_skips_upload [of _ "''o''" "Some ''http://127.0.0.1:5000/a.mp4''"
      None _ ?r "[PreflightReq, OnServerStage (Some ''EXISTS'') 1]"
      "''http://127.0.0.1:5000/a.mp4''", THEN conjunct2, rule_format]
  have q: "preflightIngestion (Some ''http://127.0.0.1:5000'') ?r =
      ([PreflightReq, OnServerStage (Some ''EXISTS'') 1],
       Inr (Exists ''o'' (Some ''http://127.0.0.1:5000/a.mp4'') None)) \<and>
    (Some ''http://127.0.0.1:5000/a.mp4'' = Some ''http://127.0.0.1:5000/a.mp4'' \<or>
     Some ''http://127.0.0.1:5000/a.mp4'' = None \<and> None = Some ''http://127.0.0.1:5000/a.mp4'') \<and>
    ''http://127.0.0.1:5000/a.mp4'' \<noteq> []"
    by (simp add: preflightIngestion_def exists_answer_def ok_def Let_def preflight_url_def
        is_http_url_def joinUrl_def strip_trailing_slash_def)
  note d [OF q]
  ultimately show ?thesis by simp
qed

section \<open>The stage registry\<close>

lemma handleStageChange_done:
  "m t = Some ''DONE'' \<Longrightarrow> handleStageChange tasks index stage m t = Some ''DONE''"
  by (auto simp add: handleStageChange_def Let_def)

lemma reports_done: "m t = Some ''DONE'' \<Longrightarrow> reports rs m t = Some ''DONE''"
proof (induction rs arbitrary: m)
  case Nil
  then show ?case by simp
next
  case (Cons r rs)
  obtain tasks index stage where r: "r = (tasks, index, stage)"
    by (cases r) auto
  from Cons.prems have "handleStageChange tasks index stage m t = Some ''DONE''"
    by (rule handleStageChange_done)
  then show ?case using Cons.IH r by simp
qed

lemma reports_append: "reports (xs @ ys) m = reports ys (reports xs m)"
  by (induction xs m rule: reports.induct) auto

text \<open>
  Claim C9. The registry is keyed by the course title. Once the entry of a title is
  \<^verbatim>\<open>DONE\<close>, it is \<^verbatim>\<open>DONE\<close> after any further sequence of stage reports, from any task
  and against any task list. For an entry that is not \<^verbatim>\<open>DONE\<close>, a report for that title
  (the task at the index exists and its title is not empty) overwrites it: after the report
  the entry is the reported stage, whatever it held before.
\<close>

theorem C9_done_is_sticky:
  "(m t = Some ''DONE'' \<longrightarrow> reports rs m t = Some ''DONE'')
   \<and> (index < length tasks \<and> courseTitle (tasks ! index) = t \<and> t \<noteq> []
        \<and> reports rs m t \<noteq> Some ''DONE''
      \<longrightarrow> reports (rs @ [(tasks, index, stage)]) m t = Some stage)"
  by (simp add: reports_done reports_append handleStageChange_def Let_def)

theorem C9_done_is_sticky_witness:
  "reports [([example_task], 0, ''QUEUED''), ([example_task], 0, ''DONE''),
            ([example_task], 0, ''FAILED'')] Map.empty ''t'' = Some ''DONE''
   \<and> reports [([example_task], 0, ''QUEUED''), ([example_task], 0, ''MERGING'')]
        Map.empty ''t'' = Some ''MERGING''"
  using C9_done_is_sticky [of "reports [([example_task], 0, ''QUEUED''),
            ([example_task], 0, ''DONE'')] Map.empty" "''t''"
            "[([example_task], 0, ''FAILED'')]" 0 "[example_task]" "''x''"]
        C9_done_is_sticky [of "Map.empty" "''t''" "[([example_task], 0, ''QUEUED'')]" 0
            "[example_task]" "''MERGING''"]
  by (simp add: handleStageChange_def example_task_def)

end
